theory Spec2Isabelle
  imports Complex_Main "HOL-Library.Multiset"
begin

section \<open>Numbers and strings of the source language\<close>

text \<open>
  A JavaScript number is modelled as \<open>NaN\<close>, one of the two infinities, or an
  exact rational. \<^verbatim>\<open>parseInt\<close> and \<^verbatim>\<open>parseFloat\<close> return \<open>NaN\<close> for a text that
  does not start with a number, and every arithmetic operation follows the
  rules of the language for \<open>NaN\<close> and the infinities. A result whose magnitude
  reaches \<open>2 ^ 1024 - 2 ^ 970\<close>, the least value that a double rounds to an
  infinity, is that infinity (\<open>fin\<close>). Below that a result is exact: rounding
  to binary floating point and the sign of a zero are not modelled. Rounding
  is monotone and keeps 0, the sign, \<open>NaN\<close> and the infinities, so that the
  properties of numbers stated below (a value is \<open>NaN\<close>, is infinite, is not
  negative, is at most another one; \<open>x - x\<close> is 0 for a finite \<open>x\<close>) are those of
  the rounded values as well. A string is a list of 8-bit characters (the
  Latin-1 part of the UTF-16 code units).
\<close>

datatype jsnum = NaN | PosInf | NegInf | Num rat

definition OVERFLOW :: rat where
  "OVERFLOW = 179769313486231580793728971405303415079934132710037826936173778980444968292764750946649017977587207096330286416692887910946555547851940402630657488671505820681908902000708383676273854845817711531764475730270069855571366959622842914819860834936475292719074168444365510704342711559699508093042880177904174497792"

definition fin :: "rat \<Rightarrow> jsnum" where
  "fin x = (if OVERFLOW \<le> x then PosInf else if x \<le> - OVERFLOW then NegInf else Num x)"

fun jadd :: "jsnum \<Rightarrow> jsnum \<Rightarrow> jsnum" where
  "jadd (Num x) (Num y) = fin (x + y)"
| "jadd NaN _ = NaN"
| "jadd _ NaN = NaN"
| "jadd PosInf NegInf = NaN"
| "jadd NegInf PosInf = NaN"
| "jadd PosInf _ = PosInf"
| "jadd _ PosInf = PosInf"
| "jadd NegInf _ = NegInf"
| "jadd _ NegInf = NegInf"

fun jsub :: "jsnum \<Rightarrow> jsnum \<Rightarrow> jsnum" where
  "jsub (Num x) (Num y) = fin (x - y)"
| "jsub NaN _ = NaN"
| "jsub _ NaN = NaN"
| "jsub PosInf PosInf = NaN"
| "jsub NegInf NegInf = NaN"
| "jsub PosInf _ = PosInf"
| "jsub NegInf _ = NegInf"
| "jsub _ PosInf = NegInf"
| "jsub _ NegInf = PosInf"

text \<open>An infinity (the positive one when \<open>pos\<close>) times a number.\<close>

fun infTimes :: "bool \<Rightarrow> jsnum \<Rightarrow> jsnum" where
  "infTimes pos NaN = NaN"
| "infTimes pos PosInf = (if pos then PosInf else NegInf)"
| "infTimes pos NegInf = (if pos then NegInf else PosInf)"
| "infTimes pos (Num y) = (if y = 0 then NaN else if (0 < y) = pos then PosInf else NegInf)"

fun jmul :: "jsnum \<Rightarrow> jsnum \<Rightarrow> jsnum" where
  "jmul (Num x) (Num y) = fin (x * y)"
| "jmul NaN _ = NaN"
| "jmul PosInf y = infTimes True y"
| "jmul NegInf y = infTimes False y"
| "jmul x PosInf = infTimes True x"
| "jmul x NegInf = infTimes False x"
| "jmul _ NaN = NaN"

text \<open>Division by a positive constant (the source divides by 1000 only).\<close>

fun jdiv :: "jsnum \<Rightarrow> rat \<Rightarrow> jsnum" where
  "jdiv (Num x) c = Num (x / c)"
| "jdiv x c = x"

text \<open>\<^verbatim>\<open>Math.max(0, x)\<close>: \<open>NaN\<close> when \<open>x\<close> is.\<close>

fun max0 :: "jsnum \<Rightarrow> jsnum" where
  "max0 (Num x) = Num (max 0 x)"
| "max0 NegInf = Num 0"
| "max0 x = x"

text \<open>
  \<^verbatim>\<open>x || y\<close> on a possibly undefined number (\<open>None\<close> is \<^verbatim>\<open>undefined\<close>, the result
  of \<^verbatim>\<open>Map.get\<close> on a missing key): \<^verbatim>\<open>undefined\<close>, \<open>NaN\<close> and 0 are falsy.
\<close>

fun orElse :: "jsnum option \<Rightarrow> jsnum \<Rightarrow> jsnum" where
  "orElse None y = y"
| "orElse (Some NaN) y = y"
| "orElse (Some (Num x)) y = (if x = 0 then y else Num x)"
| "orElse (Some x) y = x"

text \<open>\<^verbatim>\<open>x > 0\<close> on a number: false on \<open>NaN\<close>.\<close>

fun jpos :: "jsnum \<Rightarrow> bool" where
  "jpos (Num x) = (0 < x)"
| "jpos PosInf = True"
| "jpos _ = False"

subsection \<open>Character classes\<close>

definition isDigit :: "char \<Rightarrow> bool" where
  "isDigit c = (c \<in> set ''0123456789'')"

definition isWord :: "char \<Rightarrow> bool" where
  "isWord c = (c \<in> set ''abcdefghijklmnopqrstuvwxyzABCDEFGHIJKLMNOPQRSTUVWXYZ0123456789_'')"

text \<open>
  \<^verbatim>\<open>\s\<close>, and what \<^verbatim>\<open>trim\<close> strips: tab, line feed, vertical tab, form feed,
  carriage return, space and the no-break space.
\<close>

definition isSpace :: "char \<Rightarrow> bool" where
  "isSpace c = (c \<in> {CHR 0x09, CHR 0x0A, CHR 0x0B, CHR 0x0C, CHR 0x0D, CHR 0x20, CHR 0xA0})"

text \<open>The dot of a regular expression: any character but a line terminator.\<close>

definition isDot :: "char \<Rightarrow> bool" where
  "isDot c = (c \<noteq> CHR 0x0A \<and> c \<noteq> CHR 0x0D)"

definition isDigitDot :: "char \<Rightarrow> bool" where
  "isDigitDot c = (isDigit c \<or> c = CHR ''.'')"

definition notQuote :: "char \<Rightarrow> bool" where
  "notQuote c = (c \<noteq> CHR 0x22)"

definition lit :: "char \<Rightarrow> char \<Rightarrow> bool" where
  "lit x c = (c = x)"

subsection \<open>String functions\<close>

definition trim :: "string \<Rightarrow> string" where
  "trim s = rev (dropWhile isSpace (rev (dropWhile isSpace s)))"

text \<open>
  \<^verbatim>\<open>s.split(c)\<close> for a separator of one character: the pieces between the
  separators, at least one piece.
\<close>

fun split :: "char \<Rightarrow> string \<Rightarrow> string list" where
  "split c [] = [[]]"
| "split c (x # xs) =
     (if x = c then [] # split c xs
      else (case split c xs of p # ps \<Rightarrow> (x # p) # ps | [] \<Rightarrow> [[x]]))"

text \<open>\<^verbatim>\<open>s.includes(sub)\<close>: \<open>sub\<close> occurs in \<open>s\<close> as a contiguous piece.\<close>

fun includes_str :: "string \<Rightarrow> string \<Rightarrow> bool" where
  "includes_str [] sub = (sub = [])"
| "includes_str (x # xs) sub = (take (length sub) (x # xs) = sub \<or> includes_str xs sub)"

text \<open>
  \<^verbatim>\<open>parseInt\<close> and \<^verbatim>\<open>parseFloat\<close> on the texts the parsers pass them, which are
  captures of the classes \<^verbatim>\<open>\d\<close> and \<^verbatim>\<open>[\d\.]\<close>: the value of the longest
  numeric prefix, an infinity when it is out of the range of a double, \<open>NaN\<close>
  when there is no such prefix. Signs, exponents, leading blanks and the
  hexadecimal prefix, which the functions also read, cannot occur in these
  texts.
\<close>

definition digitVal :: "char \<Rightarrow> int" where
  "digitVal c = int (of_char c - 48)"

definition digitsVal :: "string \<Rightarrow> int" where
  "digitsVal ds = foldl (\<lambda>n c. 10 * n + digitVal c) 0 ds"

definition parseInt :: "string \<Rightarrow> jsnum" where
  "parseInt s =
     (let ds = takeWhile isDigit s
      in if ds = [] then NaN else fin (of_int (digitsVal ds)))"

definition parseFloat :: "string \<Rightarrow> jsnum" where
  "parseFloat s =
     (let ip = takeWhile isDigit s;
          rest = dropWhile isDigit s;
          fp = (case rest of [] \<Rightarrow> [] | c # t \<Rightarrow> if c = CHR ''.'' then takeWhile isDigit t else [])
      in if ip = [] \<and> fp = [] then NaN
         else fin (of_int (digitsVal ip) + of_int (digitsVal fp) / 10 ^ length fp))"

subsection \<open>Regular expressions\<close>

text \<open>
  The regular expressions of the source are sequences of three kinds of item:
  a character class with a quantifier (\<^verbatim>\<open>x\<close>, \<^verbatim>\<open>x*\<close>, \<^verbatim>\<open>x+\<close>, \<^verbatim>\<open>x+?\<close>), the
  parentheses of a capture group, and the anchor \<^verbatim>\<open>$\<close>. No group is nested
  and no quantifier stands on a group. \<open>run\<close> is the backtracking matcher of
  the language on this fragment, at the start of the text: a greedy
  quantifier tries the longest repetition first, a lazy one the shortest. The
  result is the list of the captures \<^verbatim>\<open>match[1]\<close>, \<^verbatim>\<open>match[2]\<close>, ...; \<open>None\<close> is
  \<^verbatim>\<open>null\<close>. \<open>LazyStar\<close> is the rest of a \<^verbatim>\<open>x+?\<close> after its first character.
\<close>

datatype quant = Once | Star | Plus | LazyStar | LazyPlus

datatype item = Atom "char \<Rightarrow> bool" quant | Open | Close | Eos

fun run :: "item list \<Rightarrow> string \<Rightarrow> string list \<Rightarrow> string \<Rightarrow> string list option" where
  "run [] s caps cur = Some (rev caps)"
| "run (Open # r) s caps cur = run r s caps []"
| "run (Close # r) s caps cur = run r s (rev cur # caps) cur"
| "run (Eos # r) s caps cur = (if s = [] then run r s caps cur else None)"
| "run (Atom p Once # r) [] caps cur = None"
| "run (Atom p Once # r) (c # cs) caps cur =
     (if p c then run r cs caps (c # cur) else None)"
| "run (Atom p Star # r) [] caps cur = run r [] caps cur"
| "run (Atom p Star # r) (c # cs) caps cur =
     (if p c
      then (case run (Atom p Star # r) cs caps (c # cur) of
              Some res \<Rightarrow> Some res
            | None \<Rightarrow> run r (c # cs) caps cur)
      else run r (c # cs) caps cur)"
| "run (Atom p Plus # r) [] caps cur = None"
| "run (Atom p Plus # r) (c # cs) caps cur =
     (if p c then run (Atom p Star # r) cs caps (c # cur) else None)"
| "run (Atom p LazyStar # r) [] caps cur = run r [] caps cur"
| "run (Atom p LazyStar # r) (c # cs) caps cur =
     (case run r (c # cs) caps cur of
        Some res \<Rightarrow> Some res
      | None \<Rightarrow> if p c then run (Atom p LazyStar # r) cs caps (c # cur) else None)"
| "run (Atom p LazyPlus # r) [] caps cur = None"
| "run (Atom p LazyPlus # r) (c # cs) caps cur =
     (if p c then run (Atom p LazyStar # r) cs caps (c # cur) else None)"

text \<open>A regular expression that starts with \<^verbatim>\<open>^\<close> matches at the start only.\<close>

definition rmatch :: "item list \<Rightarrow> string \<Rightarrow> string list option" where
  "rmatch r s = run r s [] []"

text \<open>One without \<^verbatim>\<open>^\<close> matches at the leftmost position where it can.\<close>

fun rsearch :: "item list \<Rightarrow> string \<Rightarrow> string list option" where
  "rsearch r [] = run r [] [] []"
| "rsearch r (c # cs) =
     (case run r (c # cs) [] [] of Some res \<Rightarrow> Some res | None \<Rightarrow> rsearch r cs)"

text \<open>The characters of a literal piece of a regular expression, one by one.\<close>

definition lits :: "string \<Rightarrow> item list" where
  "lits s = map (\<lambda>x. Atom (lit x) Once) s"

section \<open>Similarity scorer: edit distance\<close>

text \<open>
  The function \<^verbatim>\<open>levenshtein\<close> of the trace parser module. A JavaScript string is
  modelled as a \<^typ>\<open>string\<close> (a list of characters), its \<^verbatim>\<open>length\<close> as the
  length of the list.

  The source keeps one array \<^verbatim>\<open>row\<close> of \<^verbatim>\<open>alen + 1\<close> numbers and two scalars
  \<^verbatim>\<open>prev\<close> and \<^verbatim>\<open>val\<close>. The body of the inner loop (index \<^verbatim>\<open>j\<close>) is
  \<open>lev_cell\<close>, the body of the outer loop (index \<^verbatim>\<open>i\<close>) is \<open>lev_row\<close>; both loops
  count upwards from 1 and are folds over the index range. Every array access
  of the loops is in range: \<^verbatim>\<open>1 \<le> j \<le> alen\<close> and the array has \<^verbatim>\<open>alen + 1\<close> cells.
\<close>

definition lev_cell :: "string \<Rightarrow> char \<Rightarrow> nat \<Rightarrow> nat list \<times> nat \<Rightarrow> nat list \<times> nat" where
  "lev_cell a bc j st =
     (case st of (row, prev) \<Rightarrow>
        let val = (if bc = a ! (j - 1) then row ! (j - 1)
                   else min (row ! (j - 1) + 1) (min (prev + 1) (row ! j + 1)))
        in (row[j - 1 := prev], val))"

definition lev_row :: "string \<Rightarrow> string \<Rightarrow> nat \<Rightarrow> nat list \<Rightarrow> nat list" where
  "lev_row a b i row =
     (case fold (lev_cell a (b ! (i - 1))) [1..<Suc (length a)] (row, i) of
        (row', prev) \<Rightarrow> row'[length a := prev])"

definition levenshtein :: "string \<Rightarrow> string \<Rightarrow> nat" where
  "levenshtein a b =
     (if a = b then 0
      else if length a = 0 then length b
      else if length b = 0 then length a
      else if length a > 40 \<or> length b > 40
        then nat \<bar>int (length a) - int (length b)\<bar> + 5
      else fold (lev_row a b) [1..<Suc (length b)] [0..<Suc (length a)] ! length a)"

section \<open>Data model\<close>

text \<open>
  \<^verbatim>\<open>TraceLine\<close> is one completed call. The field \<^verbatim>\<open>id\<close> of the source is \<open>line_id\<close>
  here (\<open>id\<close> is the identity function of HOL). \<^verbatim>\<open>ParsedTrace\<close> is the result of
  a parser; its statistics (\<^verbatim>\<open>TraceStats\<close>) are sums over the finished list of
  calls, nothing below reads them, and they are left out. A \<^verbatim>\<open>DiffRow\<close> is an
  object with a tag and four optional fields, as in the source; the fields
  \<^verbatim>\<open>type\<close>, \<^verbatim>\<open>a\<close> and \<^verbatim>\<open>b\<close> are \<open>rtype\<close>, \<open>row_a\<close> and \<open>row_b\<close> here, and the type
  of the tag has the five values the source declares.
\<close>

record TraceLine =
  line_id :: nat
  pid :: jsnum
  timestamp :: string
  timestampEpoch :: jsnum
  syscall :: string
  args :: string
  result :: string
  duration :: jsnum
  userDiff :: jsnum
  raw :: string

record ParsedTrace =
  filename :: string
  lines :: "TraceLine list"
  pids :: "jsnum list"

datatype rowtype = Match | Mismatch | Insert | Delete | Gap

record DiffRow =
  rtype :: rowtype
  row_a :: "TraceLine option"
  row_b :: "TraceLine option"
  timeDiff :: "jsnum option"
  userDiffDelta :: "jsnum option"

section \<open>Similarity scorer: arguments and calls\<close>

text \<open>The regular expression \<^verbatim>\<open>/"([^"]*\/[^"]*)"/\<close>.\<close>

definition pathRegex :: "item list" where
  "pathRegex =
     [Atom (lit (CHR 0x22)) Once, Open, Atom notQuote Star, Atom (lit (CHR ''/'')) Once,
      Atom notQuote Star, Close, Atom (lit (CHR 0x22)) Once]"

text \<open>
  The body of \<^verbatim>\<open>if (matchA && matchB)\<close> in \<^verbatim>\<open>getArgSimilarity\<close>, on the two
  captured paths. \<open>split\<close> returns at least one piece, so \<open>last\<close> is defined.
\<close>

definition pathSimilarity :: "string \<Rightarrow> string \<Rightarrow> rat" where
  "pathSimilarity pathA pathB =
     (let partsA = split (CHR ''/'') pathA;
          partsB = split (CHR ''/'') pathB;
          fileA = last partsA;
          fileB = last partsB
      in if fileA = fileB \<and> length fileA > 0
         then (let dirA = (if length partsA > 1 then partsA ! (length partsA - 2) else []);
                   dirB = (if length partsB > 1 then partsB ! (length partsB - 2) else [])
               in if dirA = dirB then 1 else 9 / 10)
         else (let dist = levenshtein fileA fileB
               in if dist \<le> 2 \<and> length fileA > 3 then 7 / 10 else 2 / 10))"

text \<open>
  The loop that counts the common leading characters, with its \<^verbatim>\<open>break\<close>:
  \<open>i\<close> is the loop index, \<open>common\<close> the counter.
\<close>

function countCommon :: "string \<Rightarrow> string \<Rightarrow> nat \<Rightarrow> nat \<Rightarrow> nat \<Rightarrow> nat" where
  "countCommon a b checkLen i common =
     (if i < checkLen
      then (if a ! i = b ! i then countCommon a b checkLen (i + 1) (common + 1) else common)
      else common)"
  by pat_completeness auto
termination
  by (relation "measure (\<lambda>(a, b, checkLen, i, common). checkLen - i)") auto

text \<open>The default of \<^verbatim>\<open>getArgSimilarity\<close>, for arguments without two paths.\<close>

definition prefixSimilarity :: "string \<Rightarrow> string \<Rightarrow> rat" where
  "prefixSimilarity a b =
     (let minLen = min (length a) (length b);
          maxLen = max (length a) (length b)
      in if maxLen = 0 then 1
         else (let checkLen = min minLen 30;
                   common = countCommon a b checkLen 0 0;
                   prefixScore = of_nat common / of_nat (max checkLen 1);
                   lenScore = of_nat minLen / of_nat maxLen
               in prefixScore * (7 / 10) + lenScore * (3 / 10)))"

definition getArgSimilarity :: "string \<Rightarrow> string \<Rightarrow> rat" where
  "getArgSimilarity a b =
     (if a = b then 1
      else if a = [] \<or> b = [] then 0
      else (case (rsearch pathRegex a, rsearch pathRegex b) of
              (Some matchA, Some matchB) \<Rightarrow> pathSimilarity (matchA ! 0) (matchB ! 0)
            | _ \<Rightarrow> prefixSimilarity a b))"

definition SCORE_MATCH :: rat where "SCORE_MATCH = 10"
definition SCORE_APPROX :: rat where "SCORE_APPROX = 6"
definition SCORE_MISMATCH :: rat where "SCORE_MISMATCH = - 10"
definition SCORE_GAP :: rat where "SCORE_GAP = - 4"
definition MAX_ARG_BONUS :: rat where "MAX_ARG_BONUS = 5"

definition calculateScore :: "TraceLine \<Rightarrow> TraceLine \<Rightarrow> rat" where
  "calculateScore x y =
     (if syscall x = syscall y
      then SCORE_MATCH + getArgSimilarity (args x) (args y) * MAX_ARG_BONUS
      else (let dist = levenshtein (syscall x) (syscall y)
            in if dist \<le> 3 \<or> includes_str (syscall x) (syscall y) \<or> includes_str (syscall y) (syscall x)
               then SCORE_APPROX + getArgSimilarity (args x) (args y) * (MAX_ARG_BONUS / 2)
               else SCORE_MISMATCH))"

section \<open>Banded aligner\<close>

text \<open>
  The two sparse tables of \<^verbatim>\<open>alignTraces\<close> are maps from a cell \<open>(i, j)\<close> (the key
  \<^verbatim>\<open>`${i},${j}`\<close> of the source) to a score and to a direction. The directions
  1, 2 and 3 of the source are \<open>Diag\<close>, \<open>Up\<close> and \<open>Left\<close>. A score that may be
  \<^verbatim>\<open>-Infinity\<close> is a \<open>rat option\<close>, \<open>None\<close> standing for \<^verbatim>\<open>-Infinity\<close>; the
  comparisons \<^verbatim>\<open>></\<close> and \<^verbatim>\<open>>=\<close> on such scores are \<open>sgt\<close> and \<open>sge\<close>.
\<close>

datatype dir = Diag | Up | Left

type_synonym scoremap = "nat \<times> nat \<Rightarrow> rat option"
type_synonym dirmap = "nat \<times> nat \<Rightarrow> dir option"

fun sgt :: "rat option \<Rightarrow> rat option \<Rightarrow> bool" where
  "sgt (Some x) (Some y) = (x > y)"
| "sgt (Some x) None = True"
| "sgt None _ = False"

fun sge :: "rat option \<Rightarrow> rat option \<Rightarrow> bool" where
  "sge (Some x) (Some y) = (x \<ge> y)"
| "sge _ None = True"
| "sge None (Some y) = False"

definition getScore :: "nat \<Rightarrow> nat \<Rightarrow> scoremap \<Rightarrow> rat option" where
  "getScore i j scores =
     (if i = 0 \<and> j = 0 then Some 0
      else if i = 0 then Some (of_nat j * SCORE_GAP)
      else if j = 0 then Some (of_nat i * SCORE_GAP)
      else scores (i, j))"

definition bandK :: "nat \<Rightarrow> nat \<Rightarrow> int" where
  "bandK n m = max 200 (\<bar>int n - int m\<bar> + 100)"

text \<open>
  The columns of row \<open>i\<close> that the inner loop visits, from \<^verbatim>\<open>startJ\<close> to \<^verbatim>\<open>endJ\<close>.
  For \<open>n = 0\<close> the source divides by 0: \<^verbatim>\<open>center\<close>, \<^verbatim>\<open>startJ\<close> and \<^verbatim>\<open>endJ\<close> are
  \<open>NaN\<close>, the loop test \<^verbatim>\<open>j <= endJ\<close> is false at once, and no column is visited.
\<close>

definition bandCols :: "nat \<Rightarrow> nat \<Rightarrow> nat \<Rightarrow> nat list" where
  "bandCols n m i =
     (if n = 0 then []
      else (let center = \<lfloor>(of_nat i :: rat) * (of_nat m / of_nat n)\<rfloor>;
                startJ = max 0 (center - bandK n m);
                endJ = min (int m) (center + bandK n m)
            in map nat [startJ..endJ]))"

text \<open>
  The body of the inner loop at the cell \<open>(i, j)\<close>. The reads \<^verbatim>\<open>listA[i-1]\<close> and
  \<^verbatim>\<open>listB[j-1]\<close> are in range: \<open>0 < i \<le> n\<close> and \<open>0 < j \<le> endJ \<le> m\<close> there.
\<close>

definition fillCell ::
  "TraceLine list \<Rightarrow> TraceLine list \<Rightarrow> nat \<Rightarrow> nat \<Rightarrow> scoremap \<times> dirmap \<Rightarrow> scoremap \<times> dirmap" where
  "fillCell listA listB i j st =
     (case st of (scores, directions) \<Rightarrow>
        if i = 0 \<and> j = 0 then (scores((0, 0) \<mapsto> 0), directions)
        else
          (let scoreLeft =
                 (if j > 0 then map_option (\<lambda>v. v + SCORE_GAP) (getScore i (j - 1) scores)
                  else None);
               scoreUp =
                 (if i > 0 then map_option (\<lambda>v. v + SCORE_GAP) (getScore (i - 1) j scores)
                  else None);
               scoreDiag =
                 (if i > 0 \<and> j > 0
                  then map_option (\<lambda>v. v + calculateScore (listA ! (i - 1)) (listB ! (j - 1)))
                         (getScore (i - 1) (j - 1) scores)
                  else None);
               (maxScore1, dir1) = (if sgt scoreUp scoreLeft then (scoreUp, Up) else (scoreLeft, Left));
               (maxScore, d) = (if sge scoreDiag maxScore1 then (scoreDiag, Diag) else (maxScore1, dir1))
           in (case maxScore of
                 Some v \<Rightarrow> (scores((i, j) \<mapsto> v), directions((i, j) \<mapsto> d))
               | None \<Rightarrow> (scores, directions))))"

definition fillRow ::
  "TraceLine list \<Rightarrow> TraceLine list \<Rightarrow> nat \<Rightarrow> scoremap \<times> dirmap \<Rightarrow> scoremap \<times> dirmap" where
  "fillRow listA listB i st =
     fold (fillCell listA listB i) (bandCols (length listA) (length listB) i) st"

definition fillTable :: "TraceLine list \<Rightarrow> TraceLine list \<Rightarrow> scoremap \<times> dirmap" where
  "fillTable listA listB =
     fold (fillRow listA listB) [0..<Suc (length listA)] (Map.empty, Map.empty)"

text \<open>
  The rows the traceback puts in front of the result (\<^verbatim>\<open>rows.unshift\<close>).
\<close>

definition matchRow :: "TraceLine \<Rightarrow> TraceLine \<Rightarrow> DiffRow" where
  "matchRow x y =
     \<lparr>rtype = Match, row_a = Some x, row_b = Some y,
      timeDiff = Some (jsub (duration x) (duration y)),
      userDiffDelta = Some (jsub (userDiff x) (userDiff y))\<rparr>"

definition mismatchRow :: "TraceLine \<Rightarrow> TraceLine \<Rightarrow> DiffRow" where
  "mismatchRow x y =
     \<lparr>rtype = Mismatch, row_a = Some x, row_b = Some y, timeDiff = None, userDiffDelta = None\<rparr>"

definition deleteRow :: "TraceLine \<Rightarrow> DiffRow" where
  "deleteRow x =
     \<lparr>rtype = Delete, row_a = Some x, row_b = None, timeDiff = None, userDiffDelta = None\<rparr>"

definition insertRow :: "TraceLine \<Rightarrow> DiffRow" where
  "insertRow y =
     \<lparr>rtype = Insert, row_a = None, row_b = Some y, timeDiff = None, userDiffDelta = None\<rparr>"

text \<open>
  The traceback loop. The source decrements \<^verbatim>\<open>i\<close> and \<^verbatim>\<open>j\<close> without a test. A
  recorded \<open>Diag\<close> in row 0 or column 0 would call \<^verbatim>\<open>calculateScore\<close> on
  \<^verbatim>\<open>undefined\<close>, which throws a \<^verbatim>\<open>TypeError\<close>; a recorded \<open>Up\<close> in row 0 or \<open>Left\<close> in
  column 0 would leave the tables with a negative index. The model returns an
  error value in these three states; the table that \<open>fillTable\<close> builds never
  leads there (lemma \<open>fillTable_dirs_ok\<close> below).
\<close>

datatype error = TypeError | NegativeIndex

function traceback ::
  "TraceLine list \<Rightarrow> TraceLine list \<Rightarrow> dirmap \<Rightarrow> nat \<Rightarrow> nat \<Rightarrow> DiffRow list \<Rightarrow> error + DiffRow list" where
  "traceback listA listB directions i j rows =
     (if i > 0 \<or> j > 0
      then (case directions (i, j) of
              None \<Rightarrow>
                if i > 0 \<and> j > 0
                then traceback listA listB directions (i - 1) (j - 1)
                       (mismatchRow (listA ! (i - 1)) (listB ! (j - 1)) # rows)
                else if i > 0
                then traceback listA listB directions (i - 1) j (deleteRow (listA ! (i - 1)) # rows)
                else traceback listA listB directions i (j - 1) (insertRow (listB ! (j - 1)) # rows)
            | Some Diag \<Rightarrow>
                if i = 0 \<or> j = 0 then Inl TypeError
                else (let x = listA ! (i - 1);
                          y = listB ! (j - 1);
                          score = calculateScore x y
                      in traceback listA listB directions (i - 1) (j - 1)
                           ((if score > 0 then matchRow x y else mismatchRow x y) # rows))
            | Some Up \<Rightarrow>
                if i = 0 then Inl NegativeIndex
                else traceback listA listB directions (i - 1) j (deleteRow (listA ! (i - 1)) # rows)
            | Some Left \<Rightarrow>
                if j = 0 then Inl NegativeIndex
                else traceback listA listB directions i (j - 1) (insertRow (listB ! (j - 1)) # rows))
      else Inr rows)"
  by pat_completeness auto
termination
  by (relation "measure (\<lambda>(listA, listB, directions, i, j, rows). i + j)") auto

definition alignTraces :: "ParsedTrace \<Rightarrow> ParsedTrace \<Rightarrow> error + DiffRow list" where
  "alignTraces traceA traceB =
     (let listA = lines traceA;
          listB = lines traceB;
          n = length listA;
          m = length listB;
          (scores, directions) = fillTable listA listB
      in traceback listA listB directions n m [])"

section \<open>Format parsers\<close>

subsection \<open>Helpers of the language\<close>

text \<open>
  \<^verbatim>\<open>Array.prototype.sort\<close> with a comparison function is stable, and a result
  \<open>NaN\<close> of the comparison counts as 0. The model is the stable insertion sort:
  \<open>x\<close> goes behind the elements \<open>y\<close> with \<^verbatim>\<open>cmp(x, y) > 0\<close>. (On a consistent
  comparison every stable sort returns this list. The comparison \<^verbatim>\<open>a - b\<close> is
  consistent when no key is \<open>NaN\<close>; with such a key the language leaves the
  order to the implementation, and no statement below depends on it.)
\<close>

fun insertBy :: "('a \<Rightarrow> 'a \<Rightarrow> jsnum) \<Rightarrow> 'a \<Rightarrow> 'a list \<Rightarrow> 'a list" where
  "insertBy cmp x [] = [x]"
| "insertBy cmp x (y # ys) = (if jpos (cmp x y) then y # insertBy cmp x ys else x # y # ys)"

definition sortBy :: "('a \<Rightarrow> 'a \<Rightarrow> jsnum) \<Rightarrow> 'a list \<Rightarrow> 'a list" where
  "sortBy cmp xs = foldr (insertBy cmp) xs []"

text \<open>
  A \<^verbatim>\<open>Set\<close> of numbers is the list of its elements in the order of their first
  insertion, which is the order of \<^verbatim>\<open>Array.from\<close>.
\<close>

definition setAdd :: "jsnum \<Rightarrow> jsnum list \<Rightarrow> jsnum list" where
  "setAdd x xs = (if x \<in> set xs then xs else xs @ [x])"

text \<open>\<^verbatim>\<open>forEach((rawLine, index) => ...)\<close> visits the lines with their indices.\<close>

definition indexed :: "'a list \<Rightarrow> ('a \<times> nat) list" where
  "indexed xs = zip xs [0..<length xs]"

definition newline :: char where
  "newline = CHR 0x0A"

subsection \<open>Timestamp normalizer\<close>

text \<open>
  \<^verbatim>\<open>const [h, m, s] = ts.split(':')\<close>: a missing piece is \<^verbatim>\<open>undefined\<close>, its number
  is \<open>NaN\<close>, and so is the sum.
\<close>

definition parseTimestamp :: "string \<Rightarrow> jsnum" where
  "parseTimestamp ts =
     (case split (CHR '':'') ts of
        h # m # s # _ \<Rightarrow>
          jmul (jadd (jadd (jmul (parseInt h) (Num 3600)) (jmul (parseInt m) (Num 60))) (parseFloat s))
               (Num 1000)
      | _ \<Rightarrow> NaN)"

definition parsePerfTimestamp :: "string \<Rightarrow> jsnum" where
  "parsePerfTimestamp ts = jmul (parseFloat ts) (Num 1)"

subsection \<open>The state of a parse\<close>

text \<open>
  The local variables that the callback of \<^verbatim>\<open>forEach\<close> updates: the list
  \<^verbatim>\<open>lines\<close> (\<open>linesAcc\<close> here), the set \<^verbatim>\<open>uniquePids\<close>, the map \<^verbatim>\<open>pidLastEndTime\<close>,
  \<^verbatim>\<open>globalStartTime\<close> and \<^verbatim>\<open>hasSetStartTime\<close>; the variant-A parser has the map
  \<^verbatim>\<open>pendingCalls\<close> as well. The field \<^verbatim>\<open>syscall\<close> of a pending record is
  \<open>syscallP\<close> here. The table \<^verbatim>\<open>syscallCounts\<close> only feeds the statistics.
\<close>

record Pending =
  timestampStr :: string
  startEpoch :: jsnum
  syscallP :: string
  startArgs :: string
  rawStart :: string

record ParseState =
  linesAcc :: "TraceLine list"
  uniquePids :: "jsnum list"
  pidLastEndTime :: "jsnum \<Rightarrow> jsnum option"
  globalStartTime :: jsnum
  hasSetStartTime :: bool

record StraceState = ParseState +
  pendingCalls :: "jsnum \<Rightarrow> Pending option"

definition initPerf :: ParseState where
  "initPerf =
     \<lparr>linesAcc = [], uniquePids = [], pidLastEndTime = Map.empty,
      globalStartTime = Num 0, hasSetStartTime = False\<rparr>"

definition initStrace :: StraceState where
  "initStrace =
     \<lparr>linesAcc = [], uniquePids = [], pidLastEndTime = Map.empty,
      globalStartTime = Num 0, hasSetStartTime = False, pendingCalls = Map.empty\<rparr>"

subsection \<open>Variant B: single-line log\<close>

text \<open>
  \<^verbatim>\<open>/^(\d+\.\d+)\s+\(\s*([\d\.]+)\s+ms\):\s+(.+?)\/(\d+)\s+(\w+)\((.*)\)\s+=\s+(.*)$/\<close>
\<close>

definition perfRegex :: "item list" where
  "perfRegex =
     [Open, Atom isDigit Plus, Atom (lit (CHR ''.'')) Once, Atom isDigit Plus, Close,
      Atom isSpace Plus, Atom (lit (CHR ''('')) Once, Atom isSpace Star,
      Open, Atom isDigitDot Plus, Close, Atom isSpace Plus] @ lits ''ms):'' @
     [Atom isSpace Plus, Open, Atom isDot LazyPlus, Close, Atom (lit (CHR ''/'')) Once,
      Open, Atom isDigit Plus, Close, Atom isSpace Plus,
      Open, Atom isWord Plus, Close, Atom (lit (CHR ''('')) Once,
      Open, Atom isDot Star, Close, Atom (lit (CHR '')'')) Once,
      Atom isSpace Plus, Atom (lit (CHR ''='')) Once, Atom isSpace Plus,
      Open, Atom isDot Star, Close, Eos]"

text \<open>
  The callback of \<^verbatim>\<open>rawLines.forEach\<close> in \<^verbatim>\<open>parsePerfTrace\<close>. The regular
  expression has seven groups, so \<open>m ! 0\<close>, ..., \<open>m ! 6\<close> (\<^verbatim>\<open>match[1]\<close>, ...,
  \<^verbatim>\<open>match[7]\<close>) are defined (lemma \<open>run_length\<close> below).
\<close>

definition perfStep :: "string \<times> nat \<Rightarrow> ParseState \<Rightarrow> ParseState" where
  "perfStep entry st =
     (case entry of (rawLine, index) \<Rightarrow>
        let trimmed = trim rawLine in
        if trimmed = [] then st
        else (case rmatch perfRegex trimmed of
                None \<Rightarrow> st
              | Some m \<Rightarrow>
                  let tsStr = m ! 0;
                      durationMs = parseFloat (m ! 1);
                      p = parseInt (m ! 3);
                      currentEpoch = parsePerfTimestamp tsStr;
                      durationSec = jdiv durationMs 1000;
                      start = (if \<not> hasSetStartTime st then currentEpoch else globalStartTime st);
                      prevEnd = orElse (pidLastEndTime st p) currentEpoch;
                      userD = max0 (jsub currentEpoch prevEnd);
                      line = \<lparr>line_id = index, pid = p, timestamp = tsStr,
                              timestampEpoch = jsub currentEpoch start,
                              syscall = m ! 4, args = m ! 5, result = m ! 6,
                              duration = durationSec, userDiff = jdiv userD 1000, raw = rawLine\<rparr>
                  in \<lparr>linesAcc = linesAcc st @ [line],
                      uniquePids = setAdd p (uniquePids st),
                      pidLastEndTime = (pidLastEndTime st)(p \<mapsto> jadd currentEpoch durationMs),
                      globalStartTime = start,
                      hasSetStartTime = True\<rparr>))"

definition parsePerfTrace :: "string \<Rightarrow> string \<Rightarrow> ParsedTrace" where
  "parsePerfTrace content fname =
     (let rawLines = split newline content;
          st = fold perfStep (indexed rawLines) initPerf
      in \<lparr>filename = fname, lines = linesAcc st,
          pids = sortBy (\<lambda>x y. jsub x y) (uniquePids st)\<rparr>)"

subsection \<open>Variant A: line-envelope log\<close>

text \<open>
  \<^verbatim>\<open>/^\[pid\s+(\d+)\]\s+(.*)/\<close>, \<^verbatim>\<open>/^(\d+:\d+:\d+\.\d+)\s+(.*)/\<close>,
  \<^verbatim>\<open>/^<\.\.\.\s+(\w+)\s+resumed>(.*)/\<close>, \<^verbatim>\<open>/(.*)\)\s+=\s+(.+?)\s+<([\d\.]+)>/\<close>,
  \<^verbatim>\<open>/^(\w+)\((.*)\s+<unfinished \.\.\.>/\<close> and
  \<^verbatim>\<open>/^(\w+)\((.*)\)\s+=\s+(.+?)\s+<([\d\.]+)>/\<close>.
\<close>

definition pidRegex :: "item list" where
  "pidRegex =
     lits ''[pid'' @ [Atom isSpace Plus, Open, Atom isDigit Plus, Close, Atom (lit (CHR '']'')) Once,
                      Atom isSpace Plus, Open, Atom isDot Star, Close]"

definition timeRegex :: "item list" where
  "timeRegex =
     [Open, Atom isDigit Plus, Atom (lit (CHR '':'')) Once, Atom isDigit Plus,
      Atom (lit (CHR '':'')) Once, Atom isDigit Plus, Atom (lit (CHR ''.'')) Once,
      Atom isDigit Plus, Close, Atom isSpace Plus, Open, Atom isDot Star, Close]"

definition resumeRegex :: "item list" where
  "resumeRegex =
     lits ''<...'' @ [Atom isSpace Plus, Open, Atom isWord Plus, Close, Atom isSpace Plus] @
     lits ''resumed>'' @ [Open, Atom isDot Star, Close]"

definition endRegex :: "item list" where
  "endRegex =
     [Open, Atom isDot Star, Close, Atom (lit (CHR '')'')) Once, Atom isSpace Plus,
      Atom (lit (CHR ''='')) Once, Atom isSpace Plus, Open, Atom isDot LazyPlus, Close,
      Atom isSpace Plus, Atom (lit (CHR ''<'')) Once, Open, Atom isDigitDot Plus, Close,
      Atom (lit (CHR ''>'')) Once]"

definition unfinishedRegex :: "item list" where
  "unfinishedRegex =
     [Open, Atom isWord Plus, Close, Atom (lit (CHR ''('')) Once, Open, Atom isDot Star, Close,
      Atom isSpace Plus] @ lits ''<unfinished ...>''"

definition standardRegex :: "item list" where
  "standardRegex =
     [Open, Atom isWord Plus, Close, Atom (lit (CHR ''('')) Once, Open, Atom isDot Star, Close,
      Atom (lit (CHR '')'')) Once, Atom isSpace Plus, Atom (lit (CHR ''='')) Once,
      Atom isSpace Plus, Open, Atom isDot LazyPlus, Close, Atom isSpace Plus,
      Atom (lit (CHR ''<'')) Once, Open, Atom isDigitDot Plus, Close, Atom (lit (CHR ''>'')) Once]"

text \<open>Step 1 of the callback: the process id of a trimmed line and the rest.\<close>

definition extractPid :: "string \<Rightarrow> jsnum \<times> string" where
  "extractPid trimmed =
     (case rmatch pidRegex trimmed of
        Some m \<Rightarrow> (parseInt (m ! 0), m ! 1)
      | None \<Rightarrow> (Num 0, trimmed))"

text \<open>Case A of step 3: a resumed call, \<open>rm\<close> being the match of the body.\<close>

definition resumeCall ::
  "string \<Rightarrow> nat \<Rightarrow> jsnum \<Rightarrow> jsnum \<Rightarrow> string list \<Rightarrow> StraceState \<Rightarrow> StraceState" where
  "resumeCall rawLine index p currentEpoch rm st =
     (let syscallName = rm ! 0;
          resumeRest = rm ! 1
      in case pendingCalls st p of
           None \<Rightarrow> st
         | Some pending \<Rightarrow>
             if syscallP pending = syscallName
             then (let fullRaw = rawStart pending @ '' ... '' @ rawLine
                   in case rsearch endRegex resumeRest of
                        None \<Rightarrow> st
                      | Some em \<Rightarrow>
                          let extraArgs = em ! 0;
                              fullArgs = trim (startArgs pending @ extraArgs);
                              prevEnd = orElse (pidLastEndTime st p) (startEpoch pending);
                              userD = max0 (jsub (startEpoch pending) prevEnd);
                              line = \<lparr>line_id = index, pid = p, timestamp = timestampStr pending,
                                      timestampEpoch = jsub (startEpoch pending) (globalStartTime st),
                                      syscall = syscallName, args = fullArgs, result = em ! 1,
                                      duration = parseFloat (em ! 2), userDiff = jdiv userD 1000,
                                      raw = fullRaw\<rparr>
                          in st\<lparr>pidLastEndTime := (pidLastEndTime st)(p \<mapsto> currentEpoch),
                                linesAcc := linesAcc st @ [line],
                                pendingCalls := (pendingCalls st)(p := None)\<rparr>)
             else st)"

text \<open>Case B: an unfinished call, \<open>um\<close> being the match of the body.\<close>

definition unfinishedCall ::
  "string \<Rightarrow> jsnum \<Rightarrow> string \<Rightarrow> jsnum \<Rightarrow> string list \<Rightarrow> StraceState \<Rightarrow> StraceState" where
  "unfinishedCall rawLine p tsStr currentEpoch um st =
     st\<lparr>pendingCalls := (pendingCalls st)(p \<mapsto>
          \<lparr>timestampStr = tsStr, startEpoch = currentEpoch, syscallP = um ! 0,
           startArgs = um ! 1, rawStart = rawLine\<rparr>)\<rparr>"

text \<open>Case C: a standard call, \<open>sm\<close> being the match of the body.\<close>

definition standardCall ::
  "string \<Rightarrow> nat \<Rightarrow> jsnum \<Rightarrow> string \<Rightarrow> jsnum \<Rightarrow> string list \<Rightarrow> StraceState \<Rightarrow> StraceState" where
  "standardCall rawLine index p tsStr currentEpoch sm st =
     (let dur = parseFloat (sm ! 3);
          prevEnd = orElse (pidLastEndTime st p) currentEpoch;
          userD = max0 (jsub currentEpoch prevEnd);
          line = \<lparr>line_id = index, pid = p, timestamp = tsStr,
                  timestampEpoch = jsub currentEpoch (globalStartTime st),
                  syscall = sm ! 0, args = sm ! 1, result = sm ! 2,
                  duration = dur, userDiff = jdiv userD 1000, raw = rawLine\<rparr>
      in st\<lparr>pidLastEndTime := (pidLastEndTime st)(p \<mapsto> jadd currentEpoch (jmul dur (Num 1000))),
            linesAcc := linesAcc st @ [line]\<rparr>)"

text \<open>Step 3 of the callback, on the body of a line with a timestamp.\<close>

definition analyzeBody ::
  "string \<Rightarrow> nat \<Rightarrow> jsnum \<Rightarrow> string \<Rightarrow> jsnum \<Rightarrow> string \<Rightarrow> StraceState \<Rightarrow> StraceState" where
  "analyzeBody rawLine index p tsStr currentEpoch body st =
     (case rmatch resumeRegex body of
        Some rm \<Rightarrow> resumeCall rawLine index p currentEpoch rm st
      | None \<Rightarrow>
          (case rmatch unfinishedRegex body of
             Some um \<Rightarrow> unfinishedCall rawLine p tsStr currentEpoch um st
           | None \<Rightarrow>
               (case rmatch standardRegex body of
                  Some sm \<Rightarrow> standardCall rawLine index p tsStr currentEpoch sm st
                | None \<Rightarrow> st)))"

text \<open>The callback of \<^verbatim>\<open>rawLines.forEach\<close> in \<^verbatim>\<open>parseStrace\<close>.\<close>

definition straceStep :: "string \<times> nat \<Rightarrow> StraceState \<Rightarrow> StraceState" where
  "straceStep entry st =
     (case entry of (rawLine, index) \<Rightarrow>
        let trimmed = trim rawLine in
        if trimmed = [] then st
        else (case extractPid trimmed of (p, rest) \<Rightarrow>
          let st1 = st\<lparr>uniquePids := setAdd p (uniquePids st)\<rparr>
          in case rmatch timeRegex rest of
               None \<Rightarrow> st1
             | Some tm \<Rightarrow>
                 let tsStr = tm ! 0;
                     body = tm ! 1;
                     currentEpoch = parseTimestamp tsStr;
                     st2 = (if \<not> hasSetStartTime st1
                            then st1\<lparr>globalStartTime := currentEpoch, hasSetStartTime := True\<rparr>
                            else st1);
                     st3 = (if pidLastEndTime st2 p = None
                            then st2\<lparr>pidLastEndTime := (pidLastEndTime st2)(p \<mapsto> currentEpoch)\<rparr>
                            else st2)
                 in analyzeBody rawLine index p tsStr currentEpoch body st3))"

definition parseStrace :: "string \<Rightarrow> string \<Rightarrow> ParsedTrace" where
  "parseStrace content fname =
     (let rawLines = split newline content;
          st = fold straceStep (indexed rawLines) initStrace
      in \<lparr>filename = fname,
          lines = sortBy (\<lambda>x y. jsub (timestampEpoch x) (timestampEpoch y)) (linesAcc st),
          pids = sortBy (\<lambda>x y. jsub x y) (uniquePids st)\<rparr>)"



section \<open>Verification of the edit distance\<close>

text \<open>
  The textbook recurrence the loops are compared with, on the reversed
  prefixes: the first argument plays the part of \<^verbatim>\<open>b\<close>, the second of \<^verbatim>\<open>a\<close>.
\<close>

fun lev_rec :: "string \<Rightarrow> string \<Rightarrow> nat" where
  "lev_rec [] ys = length ys"
| "lev_rec xs [] = length xs"
| "lev_rec (x # xs) (y # ys) =
     (if x = y then lev_rec xs ys
      else min (lev_rec xs ys + 1) (min (lev_rec (x # xs) ys + 1) (lev_rec xs (y # ys) + 1)))"

subsection \<open>The loops compute the recurrence\<close>

lemma lev_rec_Nil2 [simp]: "lev_rec xs [] = length xs"
  by (cases xs) simp_all

lemma lev_rec_sym: "lev_rec xs ys = lev_rec ys xs"
  by (induction xs ys rule: lev_rec.induct) (simp_all add: min.commute min.left_commute)

lemma lev_rec_zero: "lev_rec xs ys = 0 \<longleftrightarrow> xs = ys"
  by (induction xs ys rule: lev_rec.induct) auto

definition lev_tab :: "string \<Rightarrow> string \<Rightarrow> nat \<Rightarrow> nat \<Rightarrow> nat" where
  "lev_tab a b i j = lev_rec (rev (take i b)) (rev (take j a))"

lemma lev_tab_0 [simp]: "lev_tab a b 0 j = min j (length a)"
  by (simp add: lev_tab_def min.commute)

lemma lev_tab_j0 [simp]: "lev_tab a b i 0 = min i (length b)"
  by (simp add: lev_tab_def min.commute)

lemma lev_tab_Suc:
  assumes "i < length b" "j < length a"
  shows "lev_tab a b (Suc i) (Suc j) =
     (if b ! i = a ! j then lev_tab a b i j
      else min (lev_tab a b i j + 1) (min (lev_tab a b (Suc i) j + 1) (lev_tab a b i (Suc j) + 1)))"
  using assms by (simp add: lev_tab_def take_Suc_conv_app_nth)

text \<open>
  Invariant of the inner loop in row \<open>Suc i\<close>, after the cells \<open>1..j\<close>: the
  array holds the new row left of \<open>j\<close> and the old row from \<open>j\<close> on, and
  \<^verbatim>\<open>prev\<close> is the new cell \<open>j\<close>.
\<close>

definition inner_inv :: "string \<Rightarrow> string \<Rightarrow> nat \<Rightarrow> nat \<Rightarrow> nat list \<times> nat \<Rightarrow> bool" where
  "inner_inv a b i j st =
     (case st of (row, prev) \<Rightarrow>
        length row = Suc (length a) \<and> prev = lev_tab a b (Suc i) j \<and>
        (\<forall>k < j. row ! k = lev_tab a b (Suc i) k) \<and>
        (\<forall>k. j \<le> k \<and> k \<le> length a \<longrightarrow> row ! k = lev_tab a b i k))"

lemma lev_cell_inv:
  assumes "inner_inv a b i j st" "i < length b" "j < length a"
  shows "inner_inv a b i (Suc j) (lev_cell a (b ! i) (Suc j) st)"
proof -
  obtain row prev where st: "st = (row, prev)" by (cases st)
  from assms(1) have len: "length row = Suc (length a)"
    and prev: "prev = lev_tab a b (Suc i) j"
    and new: "\<And>k. k < j \<Longrightarrow> row ! k = lev_tab a b (Suc i) k"
    and old: "\<And>k. j \<le> k \<Longrightarrow> k \<le> length a \<Longrightarrow> row ! k = lev_tab a b i k"
    by (auto simp: inner_inv_def st)
  have rj: "row ! j = lev_tab a b i j" and rsj: "row ! Suc j = lev_tab a b i (Suc j)"
    using old assms(3) by auto
  have val: "snd (lev_cell a (b ! i) (Suc j) st) = lev_tab a b (Suc i) (Suc j)"
    using assms(2,3) by (simp add: lev_cell_def st Let_def lev_tab_Suc rj rsj prev)
  have row': "fst (lev_cell a (b ! i) (Suc j) st) = row[j := prev]"
    by (simp add: lev_cell_def st Let_def)
  have "\<And>k. k < Suc j \<Longrightarrow> (row[j := prev]) ! k = lev_tab a b (Suc i) k"
    using new prev len assms(3) by (auto simp: nth_list_update less_Suc_eq)
  moreover have "\<And>k. Suc j \<le> k \<Longrightarrow> k \<le> length a \<Longrightarrow> (row[j := prev]) ! k = lev_tab a b i k"
    using old by (auto simp: nth_list_update)
  ultimately show ?thesis
    using val row' len by (cases "lev_cell a (b ! i) (Suc j) st") (auto simp: inner_inv_def)
qed

lemma lev_inner_inv:
  assumes "inner_inv a b i 0 st" "i < length b" "j \<le> length a"
  shows "inner_inv a b i j (fold (lev_cell a (b ! i)) [1..<Suc j] st)"
  using assms(3)
proof (induction j)
  case 0
  then show ?case using assms(1) by simp
next
  case (Suc j)
  then have "inner_inv a b i j (fold (lev_cell a (b ! i)) [1..<Suc j] st)" by simp
  from lev_cell_inv[OF this assms(2)] Suc.prems show ?case by simp
qed

lemma lev_row_correct:
  assumes "row = map (lev_tab a b i) [0..<Suc (length a)]" "i < length b"
  shows "lev_row a b (Suc i) row = map (lev_tab a b (Suc i)) [0..<Suc (length a)]"
proof -
  have "inner_inv a b i 0 (row, Suc i)"
    using assms by (auto simp: inner_inv_def nth_append simp del: upt_Suc)
  from lev_inner_inv[OF this assms(2) order_refl]
  have inv: "inner_inv a b i (length a) (fold (lev_cell a (b ! i)) [1..<Suc (length a)] (row, Suc i))" .
  obtain row' prev where f: "fold (lev_cell a (b ! i)) [1..<Suc (length a)] (row, Suc i) = (row', prev)"
    by (cases "fold (lev_cell a (b ! i)) [1..<Suc (length a)] (row, Suc i)")
  from inv[unfolded f] have len: "length row' = Suc (length a)"
    and prev: "prev = lev_tab a b (Suc i) (length a)"
    and new: "\<And>k. k < length a \<Longrightarrow> row' ! k = lev_tab a b (Suc i) k"
    by (auto simp: inner_inv_def)
  have "row'[length a := prev] = map (lev_tab a b (Suc i)) [0..<Suc (length a)]"
  proof (rule nth_equalityI)
    show "length (row'[length a := prev]) = length (map (lev_tab a b (Suc i)) [0..<Suc (length a)])"
      using len by simp
  next
    fix k assume "k < length (row'[length a := prev])"
    then have k: "k < Suc (length a)" using len by simp
    show "row'[length a := prev] ! k = map (lev_tab a b (Suc i)) [0..<Suc (length a)] ! k"
    proof (cases "k = length a")
      case True
      then show ?thesis using len prev by (simp add: nth_append del: upt_Suc)
    next
      case False
      with k have "k < length a" by simp
      then show ?thesis using new len k
        by (simp add: nth_append del: upt_Suc)
    qed
  qed
  then show ?thesis unfolding lev_row_def diff_Suc_1 f by simp
qed

lemma lev_outer_correct:
  assumes "i \<le> length b"
  shows "fold (lev_row a b) [1..<Suc i] [0..<Suc (length a)] = map (lev_tab a b i) [0..<Suc (length a)]"
  using assms
proof (induction i)
  case 0
  show ?case by (rule nth_equalityI) (auto simp: nth_append simp del: upt_Suc)
next
  case (Suc i)
  then have "fold (lev_row a b) [1..<Suc i] [0..<Suc (length a)] = map (lev_tab a b i) [0..<Suc (length a)]"
    by simp
  from lev_row_correct[OF this] Suc.prems show ?case by simp
qed

lemma levenshtein_loops:
  "fold (lev_row a b) [1..<Suc (length b)] [0..<Suc (length a)] ! length a = lev_rec (rev b) (rev a)"
proof -
  have "map (lev_tab a b (length b)) [0..<Suc (length a)] ! length a = lev_tab a b (length b) (length a)"
    by (simp add: nth_append del: upt_Suc)
  then show ?thesis
    unfolding lev_outer_correct[OF order_refl] by (simp add: lev_tab_def)
qed

subsection \<open>Properties of the edit distance\<close>

lemma levenshtein_short:
  assumes "a \<noteq> b" "a \<noteq> []" "b \<noteq> []" "length a \<le> 40" "length b \<le> 40"
  shows "levenshtein a b = lev_rec (rev b) (rev a)"
  using assms unfolding levenshtein_def levenshtein_loops by simp

text \<open>
  Claim C6. The edit distance is symmetric, it is 0 on two equal strings, and
  it is 0 only on two equal strings. This holds on both paths of the function:
  the loops compute the symmetric recurrence \<open>lev_rec\<close>, and the shortcut for
  long strings returns a symmetric value that is at least 5.
\<close>

theorem levenshtein_symmetric_zero:
  "levenshtein x y = levenshtein y x \<and> levenshtein x x = 0 \<and>
   (levenshtein x y = 0 \<longrightarrow> x = y)"
proof (intro conjI impI)
  show "levenshtein x x = 0" by (simp add: levenshtein_def)
next
  show "levenshtein x y = levenshtein y x"
  proof (cases "x = y \<or> x = [] \<or> y = [] \<or> 40 < length x \<or> 40 < length y")
    case True
    then show ?thesis by (auto simp: levenshtein_def)
  next
    case False
    then have "levenshtein x y = lev_rec (rev y) (rev x)"
      and "levenshtein y x = lev_rec (rev x) (rev y)"
      by (simp_all add: levenshtein_short not_sym)
    then show ?thesis by (simp add: lev_rec_sym)
  qed
next
  assume z: "levenshtein x y = 0"
  show "x = y"
  proof (rule ccontr)
    assume ne: "x \<noteq> y"
    show False
    proof (cases "x = [] \<or> y = [] \<or> 40 < length x \<or> 40 < length y")
      case True
      with z ne show False by (auto simp: levenshtein_def split: if_splits)
    next
      case False
      with ne have "levenshtein x y = lev_rec (rev y) (rev x)"
        by (simp add: levenshtein_short)
      with z have "rev y = rev x" by (simp add: lev_rec_zero)
      with ne show False by simp
    qed
  qed
qed

theorem levenshtein_symmetric_zero_witness:
  "levenshtein ''fstat'' ''newfstatat'' = levenshtein ''newfstatat'' ''fstat'' \<and>
   levenshtein ''fstat'' ''fstat'' = 0 \<and> ''fstat'' = ''fstat''"
  using levenshtein_symmetric_zero [of "''fstat''" "''newfstatat''"]
    levenshtein_symmetric_zero [of "''fstat''" "''fstat''"]
  by simp

text \<open>
  Claim C7, as the code has it. The shortcut \<open>abs (lenA - lenB) + 5\<close> stands
  behind three earlier returns: two equal strings give 0 whatever their length,
  and an empty string gives the length of the other one. So the shortcut is
  the result for two different, non-empty strings of which one is longer than
  40 characters.
\<close>

theorem levenshtein_long:
  "40 < length a \<or> 40 < length b \<Longrightarrow>
   levenshtein a b =
     (if a = b then 0
      else if a = [] then length b
      else if b = [] then length a
      else nat \<bar>int (length a) - int (length b)\<bar> + 5)"
  by (auto simp: levenshtein_def)

theorem levenshtein_long_witness:
  "40 < length (replicate 41 (CHR ''a'')) \<and>
   levenshtein (replicate 41 (CHR ''a'')) ''bbb'' = 43"
proof -
  have "length (replicate 41 (CHR ''a'')) \<noteq> length ''bbb''" by simp
  then have ne: "replicate 41 (CHR ''a'') \<noteq> ''bbb''" by fastforce
  have "replicate 41 (CHR ''a'') \<noteq> []" by simp
  with ne levenshtein_long [of "replicate 41 (CHR ''a'')" "''bbb''"]
  show ?thesis by simp
qed

text \<open>
  Claim C7, as stated, fails: a string of 41 characters compared with itself
  gives 0, not \<open>abs (41 - 41) + 5 = 5\<close>; compared with the empty string it gives
  41, not 46.
\<close>

theorem levenshtein_long_counterexample:
  "40 < length (replicate 41 (CHR ''a'')) \<and>
   levenshtein (replicate 41 (CHR ''a'')) (replicate 41 (CHR ''a'')) = 0 \<and>
   levenshtein (replicate 41 (CHR ''a'')) (replicate 41 (CHR ''a''))
     \<noteq> nat \<bar>int (length (replicate 41 (CHR ''a''))) - int (length (replicate 41 (CHR ''a'')))\<bar> + 5 \<and>
   levenshtein (replicate 41 (CHR ''a'')) [] = 41 \<and>
   levenshtein (replicate 41 (CHR ''a'')) []
     \<noteq> nat \<bar>int (length (replicate 41 (CHR ''a''))) - int (length ([]::string))\<bar> + 5"
  by (simp add: levenshtein_def)

section \<open>Verification of the aligner\<close>

declare traceback.simps [simp del]
declare countCommon.simps [simp del]

lemmas score_consts = SCORE_MATCH_def SCORE_APPROX_def SCORE_MISMATCH_def SCORE_GAP_def MAX_ARG_BONUS_def

subsection \<open>What the rows of a diff say about the two inputs\<close>

text \<open>
  The events on the \<^verbatim>\<open>a\<close> side of a diff are those of its match, mismatch and
  delete rows, in order; the events on the \<^verbatim>\<open>b\<close> side those of its match,
  mismatch and insert rows. A row has the shape of its tag when exactly the
  sides that the tag names are present.
\<close>

definition a_sides :: "DiffRow list \<Rightarrow> TraceLine list" where
  "a_sides rows =
     concat (map (\<lambda>r. if rtype r \<in> {Match, Mismatch, Delete}
                        then (case row_a r of Some x \<Rightarrow> [x] | None \<Rightarrow> []) else []) rows)"

definition b_sides :: "DiffRow list \<Rightarrow> TraceLine list" where
  "b_sides rows =
     concat (map (\<lambda>r. if rtype r \<in> {Match, Mismatch, Insert}
                        then (case row_b r of Some y \<Rightarrow> [y] | None \<Rightarrow> []) else []) rows)"

definition rowShape :: "DiffRow \<Rightarrow> bool" where
  "rowShape r =
     (case rtype r of
        Match \<Rightarrow> row_a r \<noteq> None \<and> row_b r \<noteq> None
      | Mismatch \<Rightarrow> row_a r \<noteq> None \<and> row_b r \<noteq> None
      | Insert \<Rightarrow> row_a r = None \<and> row_b r \<noteq> None
      | Delete \<Rightarrow> row_a r \<noteq> None \<and> row_b r = None
      | Gap \<Rightarrow> False)"

lemma a_sides_simps [simp]:
  "a_sides [] = []"
  "a_sides (matchRow x y # rows) = x # a_sides rows"
  "a_sides (mismatchRow x y # rows) = x # a_sides rows"
  "a_sides (deleteRow x # rows) = x # a_sides rows"
  "a_sides (insertRow y # rows) = a_sides rows"
  "a_sides (rows @ rows') = a_sides rows @ a_sides rows'"
  by (simp_all add: a_sides_def matchRow_def mismatchRow_def deleteRow_def insertRow_def)

lemma b_sides_simps [simp]:
  "b_sides [] = []"
  "b_sides (matchRow x y # rows) = y # b_sides rows"
  "b_sides (mismatchRow x y # rows) = y # b_sides rows"
  "b_sides (deleteRow x # rows) = b_sides rows"
  "b_sides (insertRow y # rows) = y # b_sides rows"
  "b_sides (rows @ rows') = b_sides rows @ b_sides rows'"
  by (simp_all add: b_sides_def matchRow_def mismatchRow_def deleteRow_def insertRow_def)

lemma rowShape_simps [simp]:
  "rowShape (matchRow x y)" "rowShape (mismatchRow x y)"
  "rowShape (deleteRow x)" "rowShape (insertRow y)"
  by (simp_all add: rowShape_def matchRow_def mismatchRow_def deleteRow_def insertRow_def)

subsection \<open>The recorded directions never leave the table\<close>

definition dirs_ok :: "dirmap \<Rightarrow> bool" where
  "dirs_ok directions =
     (\<forall>i j. (directions (i, j) = Some Diag \<longrightarrow> 0 < i \<and> 0 < j) \<and>
            (directions (i, j) = Some Up \<longrightarrow> 0 < i) \<and>
            (directions (i, j) = Some Left \<longrightarrow> 0 < j))"

lemma fillCell_dirs_ok:
  assumes "dirs_ok (snd st)"
  shows "dirs_ok (snd (fillCell listA listB i j st))"
proof -
  obtain scores directions where st: "st = (scores, directions)" by (cases st)
  show ?thesis
  proof (cases "i = 0 \<and> j = 0")
    case True
    then show ?thesis using assms by (simp add: fillCell_def st)
  next
    case False
    define scoreLeft where "scoreLeft =
      (if j > 0 then map_option (\<lambda>v. v + SCORE_GAP) (getScore i (j - 1) scores) else None)"
    define scoreUp where "scoreUp =
      (if i > 0 then map_option (\<lambda>v. v + SCORE_GAP) (getScore (i - 1) j scores) else None)"
    define scoreDiag where "scoreDiag =
      (if i > 0 \<and> j > 0
       then map_option (\<lambda>v. v + calculateScore (listA ! (i - 1)) (listB ! (j - 1)))
              (getScore (i - 1) (j - 1) scores)
       else None)"
    have L: "j = 0 \<longrightarrow> scoreLeft = None" and U: "i = 0 \<longrightarrow> scoreUp = None"
      and D: "i = 0 \<or> j = 0 \<longrightarrow> scoreDiag = None"
      by (auto simp: scoreLeft_def scoreUp_def scoreDiag_def)
    have eq: "fillCell listA listB i j st =
      (case (if sge scoreDiag (if sgt scoreUp scoreLeft then scoreUp else scoreLeft)
             then (scoreDiag, Diag)
             else if sgt scoreUp scoreLeft then (scoreUp, Up) else (scoreLeft, Left)) of
         (Some v, d) \<Rightarrow> (scores((i, j) \<mapsto> v), directions((i, j) \<mapsto> d))
       | (None, d) \<Rightarrow> (scores, directions))"
    proof -
      have nz: "(i = 0 \<and> j = 0) = False" using False by simp
      show ?thesis
        unfolding fillCell_def st nz scoreLeft_def scoreUp_def scoreDiag_def
        by (simp add: Let_def split: option.splits prod.splits)
    qed
    show ?thesis
      unfolding eq using assms L U D
      by (auto simp: dirs_ok_def st split: option.splits if_splits)
  qed
qed

lemma fold_fillCell_dirs_ok:
  "dirs_ok (snd st) \<Longrightarrow> dirs_ok (snd (fold (fillCell listA listB i) js st))"
  by (induction js arbitrary: st) (simp_all add: fillCell_dirs_ok)

lemma fold_fillRow_dirs_ok:
  "dirs_ok (snd st) \<Longrightarrow> dirs_ok (snd (fold (fillRow listA listB) is st))"
  by (induction "is" arbitrary: st) (simp_all add: fillRow_def fold_fillCell_dirs_ok)

lemma fillTable_dirs_ok: "dirs_ok (snd (fillTable listA listB))"
  unfolding fillTable_def by (rule fold_fillRow_dirs_ok) (simp add: dirs_ok_def)

subsection \<open>The traceback rebuilds both inputs\<close>

text \<open>One iteration of the traceback loop, branch by branch.\<close>

lemma traceback_stop: "traceback listA listB directions 0 0 rows = Inr rows"
  by (subst traceback.simps) simp

lemma traceback_None_both:
  "directions (i, j) = None \<Longrightarrow> 0 < i \<Longrightarrow> 0 < j \<Longrightarrow>
   traceback listA listB directions i j rows =
   traceback listA listB directions (i - 1) (j - 1)
     (mismatchRow (listA ! (i - 1)) (listB ! (j - 1)) # rows)"
  by (subst traceback.simps) simp

lemma traceback_None_col0:
  "directions (i, 0) = None \<Longrightarrow> 0 < i \<Longrightarrow>
   traceback listA listB directions i 0 rows =
   traceback listA listB directions (i - 1) 0 (deleteRow (listA ! (i - 1)) # rows)"
  by (subst traceback.simps) simp

lemma traceback_None_row0:
  "directions (0, j) = None \<Longrightarrow> 0 < j \<Longrightarrow>
   traceback listA listB directions 0 j rows =
   traceback listA listB directions 0 (j - 1) (insertRow (listB ! (j - 1)) # rows)"
  by (subst traceback.simps) simp

lemma traceback_Diag:
  "directions (i, j) = Some Diag \<Longrightarrow> 0 < i \<Longrightarrow> 0 < j \<Longrightarrow>
   traceback listA listB directions i j rows =
   traceback listA listB directions (i - 1) (j - 1)
     ((if calculateScore (listA ! (i - 1)) (listB ! (j - 1)) > 0
       then matchRow (listA ! (i - 1)) (listB ! (j - 1))
       else mismatchRow (listA ! (i - 1)) (listB ! (j - 1))) # rows)"
  by (subst traceback.simps) (simp add: Let_def)

lemma traceback_Up:
  "directions (i, j) = Some Up \<Longrightarrow> 0 < i \<Longrightarrow>
   traceback listA listB directions i j rows =
   traceback listA listB directions (i - 1) j (deleteRow (listA ! (i - 1)) # rows)"
  by (subst traceback.simps) simp

lemma traceback_Left:
  "directions (i, j) = Some Left \<Longrightarrow> 0 < j \<Longrightarrow>
   traceback listA listB directions i j rows =
   traceback listA listB directions i (j - 1) (insertRow (listB ! (j - 1)) # rows)"
  by (subst traceback.simps) simp

lemma traceback_rebuilds:
  assumes "dirs_ok directions"
  shows "i \<le> length listA \<Longrightarrow> j \<le> length listB \<Longrightarrow>
     \<exists>pre. traceback listA listB directions i j rows = Inr (pre @ rows) \<and>
           a_sides pre = take i listA \<and> b_sides pre = take j listB \<and>
           list_all rowShape pre"
proof (induction "i + j" arbitrary: i j rows rule: less_induct)
  case less
  note IH = less.hyps
  have stepD: "\<exists>pre. traceback listA listB directions (i - 1) (j - 1) (r # rows) = Inr (pre @ r # rows) \<and>
           a_sides pre = take (i - 1) listA \<and> b_sides pre = take (j - 1) listB \<and> list_all rowShape pre"
    if "0 < i" "0 < j" for r
    using IH[of "i - 1" "j - 1" "r # rows"] that less.prems by simp
  have stepU: "\<exists>pre. traceback listA listB directions (i - 1) j (r # rows) = Inr (pre @ r # rows) \<and>
           a_sides pre = take (i - 1) listA \<and> b_sides pre = take j listB \<and> list_all rowShape pre"
    if "0 < i" for r
    using IH[of "i - 1" j "r # rows"] that less.prems by simp
  have stepL: "\<exists>pre. traceback listA listB directions i (j - 1) (r # rows) = Inr (pre @ r # rows) \<and>
           a_sides pre = take i listA \<and> b_sides pre = take (j - 1) listB \<and> list_all rowShape pre"
    if "0 < j" for r
    using IH[of i "j - 1" "r # rows"] that less.prems by simp
  have tkA: "take i listA = take (i - 1) listA @ [listA ! (i - 1)]" if "0 < i"
    using that less.prems(1) take_Suc_conv_app_nth[of "i - 1" listA] by simp
  have tkB: "take j listB = take (j - 1) listB @ [listB ! (j - 1)]" if "0 < j"
    using that less.prems(2) take_Suc_conv_app_nth[of "j - 1" listB] by simp
  show ?case
  proof (cases "0 < i \<or> 0 < j")
    case False
    then show ?thesis by (simp add: traceback_stop)
  next
    case pos: True
    show ?thesis
    proof (cases "directions (i, j)")
      case None
      consider "0 < i" "0 < j" | "0 < i" "j = 0" | "i = 0" "0 < j" using pos by auto
      then show ?thesis
      proof cases
        case 1
        from stepD[OF 1, of "mismatchRow (listA ! (i - 1)) (listB ! (j - 1))"]
        obtain pre where "traceback listA listB directions (i - 1) (j - 1)
              (mismatchRow (listA ! (i - 1)) (listB ! (j - 1)) # rows)
            = Inr (pre @ mismatchRow (listA ! (i - 1)) (listB ! (j - 1)) # rows)"
          "a_sides pre = take (i - 1) listA" "b_sides pre = take (j - 1) listB" "list_all rowShape pre"
          by blast
        then show ?thesis using 1 tkA tkB traceback_None_both[of directions i j, OF None 1]
          by (intro exI[of _ "pre @ [mismatchRow (listA ! (i - 1)) (listB ! (j - 1))]"]) simp
      next
        case 2
        from stepU[OF 2(1), of "deleteRow (listA ! (i - 1))"]
        obtain pre where "traceback listA listB directions (i - 1) j (deleteRow (listA ! (i - 1)) # rows)
            = Inr (pre @ deleteRow (listA ! (i - 1)) # rows)"
          "a_sides pre = take (i - 1) listA" "b_sides pre = take j listB" "list_all rowShape pre"
          by blast
        then show ?thesis using 2 tkA traceback_None_col0[of directions i] None
          by (intro exI[of _ "pre @ [deleteRow (listA ! (i - 1))]"]) simp
      next
        case 3
        from stepL[OF 3(2), of "insertRow (listB ! (j - 1))"]
        obtain pre where "traceback listA listB directions i (j - 1) (insertRow (listB ! (j - 1)) # rows)
            = Inr (pre @ insertRow (listB ! (j - 1)) # rows)"
          "a_sides pre = take i listA" "b_sides pre = take (j - 1) listB" "list_all rowShape pre"
          by blast
        then show ?thesis using 3 tkB traceback_None_row0[of directions j] None
          by (intro exI[of _ "pre @ [insertRow (listB ! (j - 1))]"]) simp
      qed
    next
      case (Some d)
      show ?thesis
      proof (cases d)
        case Diag
        with Some assms have ij: "0 < i" "0 < j" by (auto simp: dirs_ok_def)
        define r where "r = (if calculateScore (listA ! (i - 1)) (listB ! (j - 1)) > 0
            then matchRow (listA ! (i - 1)) (listB ! (j - 1))
            else mismatchRow (listA ! (i - 1)) (listB ! (j - 1)))"
        from stepD[OF ij, of r]
        obtain pre where "traceback listA listB directions (i - 1) (j - 1) (r # rows) = Inr (pre @ r # rows)"
          "a_sides pre = take (i - 1) listA" "b_sides pre = take (j - 1) listB" "list_all rowShape pre"
          by blast
        moreover have "directions (i, j) = Some Diag" using Some Diag by simp
        ultimately show ?thesis using ij tkA tkB
          by (intro exI[of _ "pre @ [r]"]) (auto simp: traceback_Diag r_def)
      next
        case Up
        with Some assms have i: "0 < i" by (auto simp: dirs_ok_def)
        from stepU[OF i, of "deleteRow (listA ! (i - 1))"]
        obtain pre where "traceback listA listB directions (i - 1) j (deleteRow (listA ! (i - 1)) # rows)
            = Inr (pre @ deleteRow (listA ! (i - 1)) # rows)"
          "a_sides pre = take (i - 1) listA" "b_sides pre = take j listB" "list_all rowShape pre"
          by blast
        moreover have "directions (i, j) = Some Up" using Some Up by simp
        ultimately show ?thesis using i tkA
          by (intro exI[of _ "pre @ [deleteRow (listA ! (i - 1))]"]) (simp add: traceback_Up)
      next
        case Left
        with Some assms have j: "0 < j" by (auto simp: dirs_ok_def)
        from stepL[OF j, of "insertRow (listB ! (j - 1))"]
        obtain pre where "traceback listA listB directions i (j - 1) (insertRow (listB ! (j - 1)) # rows)
            = Inr (pre @ insertRow (listB ! (j - 1)) # rows)"
          "a_sides pre = take i listA" "b_sides pre = take (j - 1) listB" "list_all rowShape pre"
          by blast
        moreover have "directions (i, j) = Some Left" using Some Left by simp
        ultimately show ?thesis using j tkB
          by (intro exI[of _ "pre @ [insertRow (listB ! (j - 1))]"]) (simp add: traceback_Left)
      qed
    qed
  qed
qed

lemma rowShape_tag: "rowShape r \<Longrightarrow> rtype r \<in> {Match, Mismatch, Insert, Delete}"
  by (cases "rtype r") (simp_all add: rowShape_def)

text \<open>
  Claim C3. For every pair of parsed traces the aligner returns a diff (never
  an error). Every row carries one of the four tags match, mismatch, insert
  and delete, with exactly the sides of its tag; the events on the \<^verbatim>\<open>a\<close> side,
  in order, are the events of the first trace, and the events on the \<^verbatim>\<open>b\<close>
  side are the events of the second.
\<close>

theorem alignTraces_rebuilds:
  "\<exists>rows. alignTraces traceA traceB = Inr rows \<and>
     list_all (\<lambda>r. rtype r \<in> {Match, Mismatch, Insert, Delete} \<and> rowShape r) rows \<and>
     a_sides rows = lines traceA \<and> b_sides rows = lines traceB"
proof -
  obtain scores directions where f: "fillTable (lines traceA) (lines traceB) = (scores, directions)"
    by (cases "fillTable (lines traceA) (lines traceB)")
  have ok: "dirs_ok directions"
    using fillTable_dirs_ok[of "lines traceA" "lines traceB"] by (simp add: f)
  from traceback_rebuilds[OF ok order_refl order_refl, of "lines traceA" "lines traceB" "[]"]
  obtain pre where pre: "traceback (lines traceA) (lines traceB) directions
        (length (lines traceA)) (length (lines traceB)) [] = Inr pre"
    "a_sides pre = lines traceA" "b_sides pre = lines traceB" "list_all rowShape pre"
    by auto
  have "list_all (\<lambda>r. rtype r \<in> {Match, Mismatch, Insert, Delete} \<and> rowShape r) pre"
    using pre(4) rowShape_tag by (simp add: list_all_iff)
  with pre show ?thesis by (simp add: alignTraces_def f Let_def)
qed

text \<open>Two small traces, for the concrete instances below.\<close>

definition ex_call :: "nat \<Rightarrow> string \<Rightarrow> string \<Rightarrow> TraceLine" where
  "ex_call k name as =
     \<lparr>line_id = k, pid = Num 0, timestamp = ''10:00:00.000000'', timestampEpoch = Num (of_nat k),
      syscall = name, args = as, result = ''0'', duration = Num (1 / 1000), userDiff = Num 0,
      raw = name\<rparr>"

definition ex_traceA :: ParsedTrace where
  "ex_traceA =
     \<lparr>filename = ''a.log'',
      lines = [ex_call 0 ''openat'' ''x'', ex_call 1 ''read'' ''3'', ex_call 2 ''close'' ''3''],
      pids = [Num 0]\<rparr>"

definition ex_traceB :: ParsedTrace where
  "ex_traceB =
     \<lparr>filename = ''b.log'',
      lines = [ex_call 0 ''openat'' ''x'', ex_call 1 ''close'' ''3''],
      pids = [Num 0]\<rparr>"

lemma ex_align:
  "alignTraces ex_traceA ex_traceB =
     Inr [matchRow (ex_call 0 ''openat'' ''x'') (ex_call 0 ''openat'' ''x''),
          deleteRow (ex_call 1 ''read'' ''3''),
          matchRow (ex_call 2 ''close'' ''3'') (ex_call 1 ''close'' ''3'')]"
  by code_simp

theorem alignTraces_rebuilds_witness:
  "alignTraces ex_traceA ex_traceB =
     Inr [matchRow (ex_call 0 ''openat'' ''x'') (ex_call 0 ''openat'' ''x''),
          deleteRow (ex_call 1 ''read'' ''3''),
          matchRow (ex_call 2 ''close'' ''3'') (ex_call 1 ''close'' ''3'')] \<and>
   a_sides [matchRow (ex_call 0 ''openat'' ''x'') (ex_call 0 ''openat'' ''x''),
          deleteRow (ex_call 1 ''read'' ''3''),
          matchRow (ex_call 2 ''close'' ''3'') (ex_call 1 ''close'' ''3'')] = lines ex_traceA \<and>
   b_sides [matchRow (ex_call 0 ''openat'' ''x'') (ex_call 0 ''openat'' ''x''),
          deleteRow (ex_call 1 ''read'' ''3''),
          matchRow (ex_call 2 ''close'' ''3'') (ex_call 1 ''close'' ''3'')] = lines ex_traceB"
proof -
  from alignTraces_rebuilds[of ex_traceA ex_traceB]
  obtain rows where "alignTraces ex_traceA ex_traceB = Inr rows"
    "a_sides rows = lines ex_traceA" "b_sides rows = lines ex_traceB"
    by blast
  then show ?thesis by (simp add: ex_align)
qed

subsection \<open>One cell of the table\<close>

text \<open>
  The three candidate scores of a cell and the choice between them, as the
  body of the inner loop computes them.
\<close>

definition candLeft :: "nat \<Rightarrow> nat \<Rightarrow> scoremap \<Rightarrow> rat option" where
  "candLeft i j scores =
     (if j > 0 then map_option (\<lambda>v. v + SCORE_GAP) (getScore i (j - 1) scores) else None)"

definition candUp :: "nat \<Rightarrow> nat \<Rightarrow> scoremap \<Rightarrow> rat option" where
  "candUp i j scores =
     (if i > 0 then map_option (\<lambda>v. v + SCORE_GAP) (getScore (i - 1) j scores) else None)"

definition candDiag :: "TraceLine list \<Rightarrow> TraceLine list \<Rightarrow> nat \<Rightarrow> nat \<Rightarrow> scoremap \<Rightarrow> rat option" where
  "candDiag listA listB i j scores =
     (if i > 0 \<and> j > 0
      then map_option (\<lambda>v. v + calculateScore (listA ! (i - 1)) (listB ! (j - 1)))
             (getScore (i - 1) (j - 1) scores)
      else None)"

definition pick :: "rat option \<Rightarrow> rat option \<Rightarrow> rat option \<Rightarrow> rat option \<times> dir" where
  "pick scoreLeft scoreUp scoreDiag =
     (if sge scoreDiag (if sgt scoreUp scoreLeft then scoreUp else scoreLeft) then (scoreDiag, Diag)
      else if sgt scoreUp scoreLeft then (scoreUp, Up)
      else (scoreLeft, Left))"

lemma fillCell_unfold:
  assumes "\<not> (i = 0 \<and> j = 0)"
  shows "fillCell listA listB i j (scores, directions) =
     (case pick (candLeft i j scores) (candUp i j scores) (candDiag listA listB i j scores) of
        (Some v, d) \<Rightarrow> (scores((i, j) \<mapsto> v), directions((i, j) \<mapsto> d))
      | (None, d) \<Rightarrow> (scores, directions))"
proof -
  have nz: "(i = 0 \<and> j = 0) = False" using assms by simp
  show ?thesis
    unfolding fillCell_def nz candLeft_def candUp_def candDiag_def pick_def
    by (simp add: Let_def split: option.splits prod.splits)
qed

lemma fillCell_origin:
  "fillCell listA listB 0 0 (scores, directions) = (scores((0, 0) \<mapsto> 0), directions)"
  by (simp add: fillCell_def)

text \<open>A step writes its own cell only.\<close>

lemma fillCell_frame:
  assumes "(i', j') \<noteq> (i, j)"
  shows "fst (fillCell listA listB i j st) (i', j') = fst st (i', j')"
    and "snd (fillCell listA listB i j st) (i', j') = snd st (i', j')"
proof -
  obtain scores directions where st: "st = (scores, directions)" by (cases st)
  show "fst (fillCell listA listB i j st) (i', j') = fst st (i', j')"
    using assms
    by (cases "i = 0 \<and> j = 0")
       (auto simp: st fillCell_origin fillCell_unfold split: prod.splits option.splits)
  show "snd (fillCell listA listB i j st) (i', j') = snd st (i', j')"
    using assms
    by (cases "i = 0 \<and> j = 0")
       (auto simp: st fillCell_origin fillCell_unfold split: prod.splits option.splits)
qed

lemma getScore_frame:
  assumes "(i', j') \<noteq> (i, j)"
  shows "getScore i' j' (fst (fillCell listA listB i j st)) = getScore i' j' (fst st)"
  using fillCell_frame(1)[OF assms] by (simp add: getScore_def)

lemma getScore_origin [simp]: "getScore 0 0 scores = Some 0"
  by (simp add: getScore_def)

lemma pick_Some:
  assumes "pick l u d = (Some v, x)"
  shows "(x = Diag \<longrightarrow> d = Some v) \<and> (x = Up \<longrightarrow> u = Some v) \<and> (x = Left \<longrightarrow> l = Some v)"
  using assms by (auto simp: pick_def split: if_splits)

lemma pick_max:
  assumes "pick l u d = (best, x)"
  shows "sge best l \<and> sge best u \<and> sge best d"
  using assms
  by (cases l; cases u; cases d) (auto simp: pick_def split: if_splits)

lemma pick_all:
  "\<exists>x. pick (Some l) (Some u) (Some d) = (Some (max d (max u l)), x) \<and>
       (x = Diag \<longrightarrow> max d (max u l) = d) \<and>
       (x = Up \<longrightarrow> max d (max u l) = u) \<and>
       (x = Left \<longrightarrow> max d (max u l) = l)"
  by (auto simp: pick_def max_def)

subsection \<open>The band covers the table of two short traces\<close>

lemma map_nat_upto: "map nat [0..int m] = [0..<Suc m]"
proof (induction m)
  case 0
  show ?case by (simp add: upto.simps)
next
  case (Suc m)
  have "[0..int (Suc m)] = [0..int m] @ [int m + 1]"
    using upto_rec2[of 0 "int m + 1"] by (simp add: add.commute)
  with Suc show ?case by (simp add: nat_add_distrib)
qed

lemma center_range:
  assumes "0 < n" "i \<le> n"
  shows "0 \<le> \<lfloor>(of_nat i :: rat) * (of_nat m / of_nat n)\<rfloor>"
    and "\<lfloor>(of_nat i :: rat) * (of_nat m / of_nat n)\<rfloor> \<le> int m"
proof -
  have nn: "(0::rat) \<le> of_nat i * (of_nat m / of_nat n)" by simp
  then show "0 \<le> \<lfloor>(of_nat i :: rat) * (of_nat m / of_nat n)\<rfloor>" by simp
  have "(of_nat i :: rat) / of_nat n \<le> 1" using assms by simp
  then have "(of_nat i :: rat) / of_nat n * of_nat m \<le> 1 * of_nat m"
    by (rule mult_right_mono) simp
  then have "(of_nat i :: rat) * (of_nat m / of_nat n) \<le> of_int (int m)" by simp
  then show "\<lfloor>(of_nat i :: rat) * (of_nat m / of_nat n)\<rfloor> \<le> int m"
    by (simp add: floor_le_iff)
qed

lemma bandCols_full:
  assumes "0 < n" "i \<le> n" "m \<le> 200"
  shows "bandCols n m i = [0..<Suc m]"
proof -
  define c where "c = \<lfloor>(of_nat i :: rat) * (of_nat m / of_nat n)\<rfloor>"
  have c: "0 \<le> c" "c \<le> int m" using center_range[OF assms(1,2), of m] by (simp_all add: c_def)
  have K: "200 \<le> bandK n m" by (simp add: bandK_def)
  have lo: "max 0 (c - bandK n m) = 0" using c K assms(3) by simp
  have hi: "min (int m) (c + bandK n m) = int m" using c K assms(3) by simp
  have "bandCols n m i = map nat [max 0 (c - bandK n m)..min (int m) (c + bandK n m)]"
    using assms(1) unfolding bandCols_def c_def by (simp add: Let_def)
  then show ?thesis unfolding lo hi map_nat_upto .
qed

subsection \<open>The full dynamic program\<close>

text \<open>
  The global alignment of the two sequences without a band, as the
  specification describes it: the cell \<open>(i, j)\<close> holds the best score of an
  alignment of the first \<open>i\<close> events of A with the first \<open>j\<close> events of B; a
  diagonal step scores the pair of events, a horizontal and a vertical step
  cost the gap penalty.
\<close>

fun fullDP :: "TraceLine list \<Rightarrow> TraceLine list \<Rightarrow> nat \<Rightarrow> nat \<Rightarrow> rat" where
  "fullDP listA listB 0 j = of_nat j * SCORE_GAP"
| "fullDP listA listB (Suc i) 0 = of_nat (Suc i) * SCORE_GAP"
| "fullDP listA listB (Suc i) (Suc j) =
     max (fullDP listA listB i j + calculateScore (listA ! i) (listB ! j))
         (max (fullDP listA listB i (Suc j) + SCORE_GAP) (fullDP listA listB (Suc i) j + SCORE_GAP))"

text \<open>
  The total score of a diff: the pair score of every match and mismatch row
  and the gap penalty of every insert and delete row.
\<close>

definition rowScore :: "DiffRow \<Rightarrow> rat" where
  "rowScore r =
     (case rtype r of
        Insert \<Rightarrow> SCORE_GAP
      | Delete \<Rightarrow> SCORE_GAP
      | Gap \<Rightarrow> 0
      | _ \<Rightarrow> (case (row_a r, row_b r) of (Some x, Some y) \<Rightarrow> calculateScore x y | _ \<Rightarrow> 0))"

definition totalScore :: "DiffRow list \<Rightarrow> rat" where
  "totalScore rows = sum_list (map rowScore rows)"

lemma rowScore_simps [simp]:
  "rowScore (matchRow x y) = calculateScore x y"
  "rowScore (mismatchRow x y) = calculateScore x y"
  "rowScore (deleteRow x) = SCORE_GAP"
  "rowScore (insertRow y) = SCORE_GAP"
  by (simp_all add: rowScore_def matchRow_def mismatchRow_def deleteRow_def insertRow_def)

lemma totalScore_simps [simp]:
  "totalScore [] = 0"
  "totalScore (r # rows) = rowScore r + totalScore rows"
  "totalScore (rows @ rows') = totalScore rows + totalScore rows'"
  by (simp_all add: totalScore_def)

lemma fullDP_col0 [simp]: "fullDP listA listB i 0 = of_nat i * SCORE_GAP"
  by (cases i) simp_all

lemma fullDP_step:
  assumes "0 < i" "0 < j"
  shows "fullDP listA listB i j =
     max (fullDP listA listB (i - 1) (j - 1) + calculateScore (listA ! (i - 1)) (listB ! (j - 1)))
         (max (fullDP listA listB (i - 1) j + SCORE_GAP) (fullDP listA listB i (j - 1) + SCORE_GAP))"
proof -
  obtain i' j' where "i = Suc i'" "j = Suc j'" using assms by (metis gr0_implies_Suc)
  then show ?thesis by simp
qed

lemma fullDP_row0_step: "0 < j \<Longrightarrow> fullDP listA listB 0 j = fullDP listA listB 0 (j - 1) + SCORE_GAP"
  by (cases j) (simp_all add: distrib_right)

lemma fullDP_col0_step: "0 < i \<Longrightarrow> fullDP listA listB i 0 = fullDP listA listB (i - 1) 0 + SCORE_GAP"
  by (cases i) (simp_all add: distrib_right)

subsection \<open>A cell that agrees with the full dynamic program\<close>

text \<open>
  A cell is good when its score is that of the full dynamic program and the
  step that the traceback takes from it (the recorded direction, or the forced
  step on the border where none is recorded) is a step that attains this score.
\<close>

definition cellGood ::
  "TraceLine list \<Rightarrow> TraceLine list \<Rightarrow> scoremap \<times> dirmap \<Rightarrow> nat \<Rightarrow> nat \<Rightarrow> bool" where
  "cellGood listA listB st i j =
     (getScore i j (fst st) = Some (fullDP listA listB i j) \<and>
      (case snd st (i, j) of
         None \<Rightarrow> i = 0 \<or> j = 0
       | Some Diag \<Rightarrow> 0 < i \<and> 0 < j \<and>
           fullDP listA listB i j =
             fullDP listA listB (i - 1) (j - 1) + calculateScore (listA ! (i - 1)) (listB ! (j - 1))
       | Some Up \<Rightarrow> 0 < i \<and> fullDP listA listB i j = fullDP listA listB (i - 1) j + SCORE_GAP
       | Some Left \<Rightarrow> 0 < j \<and> fullDP listA listB i j = fullDP listA listB i (j - 1) + SCORE_GAP))"

lemma cellGood_frame:
  assumes "(i', j') \<noteq> (i, j)"
  shows "cellGood listA listB (fillCell listA listB i j st) i' j' = cellGood listA listB st i' j'"
  unfolding cellGood_def getScore_frame[OF assms] fillCell_frame(2)[OF assms] ..

lemma getScore_border:
  "i = 0 \<or> j = 0 \<Longrightarrow> getScore i j scores = Some (fullDP listA listB i j)"
  by (auto simp: getScore_def)

lemma fillCell_good:
  assumes nz: "\<not> (i = 0 \<and> j = 0)"
    and L: "0 < j \<Longrightarrow> getScore i (j - 1) (fst st) = Some (fullDP listA listB i (j - 1))"
    and U: "0 < i \<Longrightarrow> getScore (i - 1) j (fst st) = Some (fullDP listA listB (i - 1) j)"
    and D: "0 < i \<Longrightarrow> 0 < j \<Longrightarrow> getScore (i - 1) (j - 1) (fst st) = Some (fullDP listA listB (i - 1) (j - 1))"
  shows "cellGood listA listB (fillCell listA listB i j st) i j"
proof -
  obtain scores directions where st: "st = (scores, directions)" by (cases st)
  consider (row0) "i = 0" "0 < j" | (col0) "0 < i" "j = 0" | (inner) "0 < i" "0 < j"
    using nz by auto
  then show ?thesis
  proof cases
    case row0
    have "candLeft i j scores = Some (fullDP listA listB 0 (j - 1) + SCORE_GAP)"
      using L row0 by (simp add: candLeft_def st)
    moreover have "candUp i j scores = None" "candDiag listA listB i j scores = None"
      using row0 by (simp_all add: candUp_def candDiag_def)
    ultimately show ?thesis
      using row0 fullDP_row0_step[of j listA listB]
      by (simp add: cellGood_def st fillCell_unfold pick_def getScore_def)
  next
    case col0
    have "candUp i j scores = Some (fullDP listA listB (i - 1) 0 + SCORE_GAP)"
      using U col0 by (simp add: candUp_def st)
    moreover have "candLeft i j scores = None" "candDiag listA listB i j scores = None"
      using col0 by (simp_all add: candLeft_def candDiag_def)
    ultimately show ?thesis
      using col0 fullDP_col0_step[of i listA listB]
      by (simp add: cellGood_def st fillCell_unfold pick_def getScore_def)
  next
    case inner
    define l where "l = fullDP listA listB i (j - 1) + SCORE_GAP"
    define u where "u = fullDP listA listB (i - 1) j + SCORE_GAP"
    define d where "d = fullDP listA listB (i - 1) (j - 1) + calculateScore (listA ! (i - 1)) (listB ! (j - 1))"
    have c: "candLeft i j scores = Some l" "candUp i j scores = Some u"
      "candDiag listA listB i j scores = Some d"
      using L U D inner by (simp_all add: candLeft_def candUp_def candDiag_def st l_def u_def d_def)
    have f: "fullDP listA listB i j = max d (max u l)"
      using fullDP_step[OF inner] by (simp add: l_def u_def d_def)
    obtain x where x: "pick (Some l) (Some u) (Some d) = (Some (max d (max u l)), x)"
      "x = Diag \<longrightarrow> max d (max u l) = d" "x = Up \<longrightarrow> max d (max u l) = u"
      "x = Left \<longrightarrow> max d (max u l) = l"
      using pick_all[of l u d] by blast
    have cell: "fillCell listA listB i j st =
        (scores((i, j) \<mapsto> fullDP listA listB i j), directions((i, j) \<mapsto> x))"
      unfolding st fillCell_unfold[OF nz] c x(1) f by simp
    have "getScore i j (fst (fillCell listA listB i j st)) = Some (fullDP listA listB i j)"
      using inner by (simp add: cell getScore_def)
    moreover have "snd (fillCell listA listB i j st) (i, j) = Some x" by (simp add: cell)
    moreover have "x = Diag \<longrightarrow> fullDP listA listB i j = d" "x = Up \<longrightarrow> fullDP listA listB i j = u"
      "x = Left \<longrightarrow> fullDP listA listB i j = l"
      using x f by simp_all
    ultimately show ?thesis
      using inner unfolding cellGood_def l_def u_def d_def by (cases x) simp_all
  qed
qed


subsection \<open>Filling the whole table\<close>

text \<open>
  \<open>doneBefore st r c\<close>: all cells of the table before the cell \<open>(r, c)\<close>, in the
  order in which the two loops visit them, are good.
\<close>

definition doneBefore ::
  "TraceLine list \<Rightarrow> TraceLine list \<Rightarrow> scoremap \<times> dirmap \<Rightarrow> nat \<Rightarrow> nat \<Rightarrow> bool" where
  "doneBefore listA listB st r c =
     (\<forall>i j. j \<le> length listB \<and> (i, j) \<noteq> (0, 0) \<and> (i < r \<or> (i = r \<and> j < c))
        \<longrightarrow> cellGood listA listB st i j)"

lemma doneBefore_score:
  assumes "doneBefore listA listB st r c" "j \<le> length listB" "i < r \<or> (i = r \<and> j < c)"
  shows "getScore i j (fst st) = Some (fullDP listA listB i j)"
proof (cases "(i, j) = (0, 0)")
  case True
  then show ?thesis by simp
next
  case False
  with assms show ?thesis by (auto simp: doneBefore_def cellGood_def)
qed

lemma doneBefore_step:
  assumes "doneBefore listA listB st r c" "c \<le> length listB"
  shows "doneBefore listA listB (fillCell listA listB r c st) r (Suc c)"
  unfolding doneBefore_def
proof (intro allI impI)
  fix i j
  assume h: "j \<le> length listB \<and> (i, j) \<noteq> (0, 0) \<and> (i < r \<or> (i = r \<and> j < Suc c))"
  show "cellGood listA listB (fillCell listA listB r c st) i j"
  proof (cases "(i, j) = (r, c)")
    case True
    then have nz: "\<not> (r = 0 \<and> c = 0)" using h by auto
    have "cellGood listA listB (fillCell listA listB r c st) r c"
    proof (rule fillCell_good[OF nz])
      assume "0 < c"
      then show "getScore r (c - 1) (fst st) = Some (fullDP listA listB r (c - 1))"
        using doneBefore_score[OF assms(1), of "c - 1" r] assms(2) by simp
    next
      assume "0 < r"
      then show "getScore (r - 1) c (fst st) = Some (fullDP listA listB (r - 1) c)"
        using doneBefore_score[OF assms(1), of c "r - 1"] assms(2) by simp
    next
      assume "0 < r" "0 < c"
      then show "getScore (r - 1) (c - 1) (fst st) = Some (fullDP listA listB (r - 1) (c - 1))"
        using doneBefore_score[OF assms(1), of "c - 1" "r - 1"] assms(2) by simp
    qed
    with True show ?thesis by simp
  next
    case False
    then have "i < r \<or> (i = r \<and> j < c)" using h by auto
    with h assms(1) have "cellGood listA listB st i j" by (auto simp: doneBefore_def)
    with False show ?thesis by (simp add: cellGood_frame)
  qed
qed

lemma doneBefore_row:
  assumes "doneBefore listA listB st r 0" "k \<le> Suc (length listB)"
  shows "doneBefore listA listB (fold (fillCell listA listB r) [0..<k] st) r k"
  using assms(2)
proof (induction k)
  case 0
  show ?case using assms(1) by simp
next
  case (Suc k)
  then have IH: "doneBefore listA listB (fold (fillCell listA listB r) [0..<k] st) r k"
    and k: "k \<le> length listB" by simp_all
  have "fold (fillCell listA listB r) [0..<Suc k] st =
      fillCell listA listB r k (fold (fillCell listA listB r) [0..<k] st)"
    by simp
  with doneBefore_step[OF IH k] show ?case by (simp only:)
qed

lemma doneBefore_next_row:
  assumes "doneBefore listA listB st r (Suc (length listB))"
  shows "doneBefore listA listB st (Suc r) 0"
  unfolding doneBefore_def
proof (intro allI impI)
  fix i j
  assume h: "j \<le> length listB \<and> (i, j) \<noteq> (0, 0) \<and> (i < Suc r \<or> (i = Suc r \<and> j < 0))"
  then have j: "j \<le> length listB" and nz: "(i, j) \<noteq> (0, 0)" and "i < Suc r" by simp_all
  then have "i < r \<or> (i = r \<and> j < Suc (length listB))" by linarith
  with j nz have "j \<le> length listB \<and> (i, j) \<noteq> (0, 0) \<and> (i < r \<or> (i = r \<and> j < Suc (length listB)))"
    by (simp only: simp_thms)
  with assms show "cellGood listA listB st i j" unfolding doneBefore_def by (elim allE impE)
qed

lemma doneBefore_rows:
  assumes "0 < length listA" "length listB \<le> 200" "k \<le> Suc (length listA)"
  shows "doneBefore listA listB (fold (fillRow listA listB) [0..<k] (Map.empty, Map.empty)) k 0"
  using assms(3)
proof (induction k)
  case 0
  show ?case by (simp add: doneBefore_def)
next
  case (Suc k)
  then have IH: "doneBefore listA listB (fold (fillRow listA listB) [0..<k] (Map.empty, Map.empty)) k 0"
    by simp
  have cols: "bandCols (length listA) (length listB) k = [0..<Suc (length listB)]"
    using bandCols_full[OF assms(1) _ assms(2), of k] Suc.prems by simp
  have row: "fillRow listA listB k s = fold (fillCell listA listB k) [0..<Suc (length listB)] s" for s
    by (simp only: fillRow_def cols)
  have "doneBefore listA listB
      (fillRow listA listB k (fold (fillRow listA listB) [0..<k] (Map.empty, Map.empty)))
      k (Suc (length listB))"
    unfolding row by (rule doneBefore_row[OF IH order_refl])
  then show ?case by (simp add: doneBefore_next_row)
qed

text \<open>
  When B has at most 200 events the band of every row is the whole row, and
  every cell of the finished table is good. (With no event in A the loops
  visit no cell, and the border cells are good as they stand.)
\<close>

lemma fillTable_good:
  assumes "length listB \<le> 200" "i \<le> length listA" "j \<le> length listB" "(i, j) \<noteq> (0, 0)"
  shows "cellGood listA listB (fillTable listA listB) i j"
proof (cases "length listA = 0")
  case True
  then have "fillTable listA listB = (Map.empty, Map.empty)"
    by (simp add: fillTable_def fillRow_def bandCols_def)
  with True assms show ?thesis by (simp add: cellGood_def getScore_def)
next
  case False
  then have "doneBefore listA listB (fillTable listA listB) (Suc (length listA)) 0"
    unfolding fillTable_def using doneBefore_rows[OF _ assms(1) order_refl] by simp
  with assms show ?thesis by (auto simp: doneBefore_def)
qed

subsection \<open>The score of the traceback\<close>

lemma traceback_score:
  assumes good: "\<And>i' j'. i' \<le> length listA \<Longrightarrow> j' \<le> length listB \<Longrightarrow> (i', j') \<noteq> (0, 0) \<Longrightarrow>
      cellGood listA listB (scores, directions) i' j'"
  shows "i \<le> length listA \<Longrightarrow> j \<le> length listB \<Longrightarrow>
     \<exists>pre. traceback listA listB directions i j rows = Inr (pre @ rows) \<and>
           totalScore pre = fullDP listA listB i j"
proof (induction "i + j" arbitrary: i j rows rule: less_induct)
  case less
  note IH = less.hyps
  show ?case
  proof (cases "(i, j) = (0, 0)")
    case True
    then show ?thesis by (simp add: traceback_stop)
  next
    case False
    from good[OF less.prems False]
    have g: "case directions (i, j) of
         None \<Rightarrow> i = 0 \<or> j = 0
       | Some Diag \<Rightarrow> 0 < i \<and> 0 < j \<and>
           fullDP listA listB i j =
             fullDP listA listB (i - 1) (j - 1) + calculateScore (listA ! (i - 1)) (listB ! (j - 1))
       | Some Up \<Rightarrow> 0 < i \<and> fullDP listA listB i j = fullDP listA listB (i - 1) j + SCORE_GAP
       | Some Left \<Rightarrow> 0 < j \<and> fullDP listA listB i j = fullDP listA listB i (j - 1) + SCORE_GAP"
      by (simp add: cellGood_def)
    have up: "\<exists>pre. traceback listA listB directions i j rows = Inr (pre @ rows) \<and>
           totalScore pre = fullDP listA listB i j"
      if step: "traceback listA listB directions i j rows =
          traceback listA listB directions (i - 1) j (deleteRow (listA ! (i - 1)) # rows)"
        and i: "0 < i" and f: "fullDP listA listB i j = fullDP listA listB (i - 1) j + SCORE_GAP"
    proof -
      have "i - 1 + j < i + j" "i - 1 \<le> length listA" using i less.prems by simp_all
      from IH[OF this less.prems(2), of "deleteRow (listA ! (i - 1)) # rows"]
      obtain pre where "traceback listA listB directions (i - 1) j (deleteRow (listA ! (i - 1)) # rows)
          = Inr (pre @ deleteRow (listA ! (i - 1)) # rows)"
        "totalScore pre = fullDP listA listB (i - 1) j"
        by blast
      then show ?thesis using step f
        by (intro exI[of _ "pre @ [deleteRow (listA ! (i - 1))]"]) simp
    qed
    have left: "\<exists>pre. traceback listA listB directions i j rows = Inr (pre @ rows) \<and>
           totalScore pre = fullDP listA listB i j"
      if step: "traceback listA listB directions i j rows =
          traceback listA listB directions i (j - 1) (insertRow (listB ! (j - 1)) # rows)"
        and j: "0 < j" and f: "fullDP listA listB i j = fullDP listA listB i (j - 1) + SCORE_GAP"
    proof -
      have "i + (j - 1) < i + j" "j - 1 \<le> length listB" using j less.prems by simp_all
      from IH[OF this(1) less.prems(1) this(2), of "insertRow (listB ! (j - 1)) # rows"]
      obtain pre where "traceback listA listB directions i (j - 1) (insertRow (listB ! (j - 1)) # rows)
          = Inr (pre @ insertRow (listB ! (j - 1)) # rows)"
        "totalScore pre = fullDP listA listB i (j - 1)"
        by blast
      then show ?thesis using step f
        by (intro exI[of _ "pre @ [insertRow (listB ! (j - 1))]"]) simp
    qed
    show ?thesis
    proof (cases "directions (i, j)")
      case None
      with g have "i = 0 \<or> j = 0" by simp
      with False consider "i = 0" "0 < j" | "0 < i" "j = 0" by auto
      then show ?thesis
      proof cases
        case 1
        show ?thesis
          using left 1 None traceback_None_row0[of directions j listA listB rows]
            fullDP_row0_step[of j listA listB]
          by simp
      next
        case 2
        show ?thesis
          using up 2 None traceback_None_col0[of directions i listA listB rows]
            fullDP_col0_step[of i listA listB]
          by simp
      qed
    next
      case (Some d)
      show ?thesis
      proof (cases d)
        case Diag
        with Some g have ij: "0 < i" "0 < j"
          and f: "fullDP listA listB i j =
             fullDP listA listB (i - 1) (j - 1) + calculateScore (listA ! (i - 1)) (listB ! (j - 1))"
          by simp_all
        define r where "r = (if calculateScore (listA ! (i - 1)) (listB ! (j - 1)) > 0
            then matchRow (listA ! (i - 1)) (listB ! (j - 1))
            else mismatchRow (listA ! (i - 1)) (listB ! (j - 1)))"
        have rs: "rowScore r = calculateScore (listA ! (i - 1)) (listB ! (j - 1))"
          by (simp add: r_def)
        have step: "traceback listA listB directions i j rows =
            traceback listA listB directions (i - 1) (j - 1) (r # rows)"
          using Some Diag ij by (simp add: traceback_Diag r_def)
        have "i - 1 + (j - 1) < i + j" "i - 1 \<le> length listA" "j - 1 \<le> length listB"
          using ij less.prems by simp_all
        from IH[OF this, of "r # rows"]
        obtain pre where "traceback listA listB directions (i - 1) (j - 1) (r # rows) = Inr (pre @ r # rows)"
          "totalScore pre = fullDP listA listB (i - 1) (j - 1)"
          by blast
        then show ?thesis using step f rs
          by (intro exI[of _ "pre @ [r]"]) simp
      next
        case Up
        with Some g show ?thesis using up traceback_Up[of directions i j listA listB rows] by simp
      next
        case Left
        with Some g show ?thesis using left traceback_Left[of directions i j listA listB rows] by simp
      qed
    qed
  qed
qed

subsection \<open>No alignment scores more than the full dynamic program\<close>

lemma snoc_eq_take:
  assumes "xs @ [x] = take i ys" "i \<le> length ys"
  shows "0 < i \<and> xs = take (i - 1) ys \<and> x = ys ! (i - 1)"
proof -
  have len: "length xs + 1 = i" using assms by (metis length_append_singleton length_take min.absorb2 Suc_eq_plus1)
  then have i: "0 < i" by simp
  have "take i ys = take (i - 1) ys @ [ys ! (i - 1)]"
    using take_Suc_conv_app_nth[of "i - 1" ys] i assms(2) by simp
  with assms(1) have "xs @ [x] = take (i - 1) ys @ [ys ! (i - 1)]" by simp
  then show ?thesis using i by simp
qed

lemma fullDP_ge_diag:
  "0 < i \<Longrightarrow> 0 < j \<Longrightarrow>
   fullDP listA listB (i - 1) (j - 1) + calculateScore (listA ! (i - 1)) (listB ! (j - 1))
     \<le> fullDP listA listB i j"
  by (simp add: fullDP_step)

lemma fullDP_ge_up:
  assumes "0 < i"
  shows "fullDP listA listB (i - 1) j + SCORE_GAP \<le> fullDP listA listB i j"
proof (cases "0 < j")
  case True
  show ?thesis unfolding fullDP_step[OF assms True] by (simp add: le_max_iff_disj)
next
  case False
  then have "j = 0" by simp
  then show ?thesis using fullDP_col0_step[OF assms, of listA listB] by (simp only: order_refl)
qed

lemma fullDP_ge_left:
  assumes "0 < j"
  shows "fullDP listA listB i (j - 1) + SCORE_GAP \<le> fullDP listA listB i j"
proof (cases "0 < i")
  case True
  show ?thesis unfolding fullDP_step[OF True assms] by (simp add: le_max_iff_disj)
next
  case False
  then have "i = 0" by simp
  then show ?thesis using fullDP_row0_step[OF assms, of listA listB] by (simp only: order_refl)
qed

lemma fullDP_optimal:
  "list_all rowShape rows \<Longrightarrow> i \<le> length listA \<Longrightarrow> j \<le> length listB \<Longrightarrow>
   a_sides rows = take i listA \<Longrightarrow> b_sides rows = take j listB \<Longrightarrow>
   totalScore rows \<le> fullDP listA listB i j"
proof (induction rows arbitrary: i j rule: rev_induct)
  case Nil
  then have "i = 0" "j = 0" by auto
  then show ?case by simp
next
  case (snoc r rows)
  from snoc.prems(1) have shape: "rowShape r" and rest: "list_all rowShape rows" by simp_all
  show ?case
  proof (cases "rtype r")
    case Gap
    with shape show ?thesis by (simp add: rowShape_def)
  next
    case Insert
    with shape obtain y where y: "row_a r = None" "row_b r = Some y" by (auto simp: rowShape_def)
    have a: "a_sides (rows @ [r]) = a_sides rows" and b: "b_sides (rows @ [r]) = b_sides rows @ [y]"
      using Insert y by (simp_all add: a_sides_def b_sides_def)
    from snoc_eq_take[OF _ snoc.prems(3)] snoc.prems(5) b
    have j: "0 < j" "b_sides rows = take (j - 1) listB" by simp_all
    have "totalScore rows \<le> fullDP listA listB i (j - 1)"
      using snoc.IH[OF rest snoc.prems(2), of "j - 1"] snoc.prems(3,4) j a by simp
    moreover have "rowScore r = SCORE_GAP" using Insert by (simp add: rowScore_def)
    ultimately show ?thesis using fullDP_ge_left[OF j(1), of listA listB i] by simp
  next
    case Delete
    with shape obtain x where x: "row_a r = Some x" "row_b r = None" by (auto simp: rowShape_def)
    have a: "a_sides (rows @ [r]) = a_sides rows @ [x]" and b: "b_sides (rows @ [r]) = b_sides rows"
      using Delete x by (simp_all add: a_sides_def b_sides_def)
    from snoc_eq_take[OF _ snoc.prems(2)] snoc.prems(4) a
    have i: "0 < i" "a_sides rows = take (i - 1) listA" by simp_all
    have "totalScore rows \<le> fullDP listA listB (i - 1) j"
      using snoc.IH[OF rest _ snoc.prems(3), of "i - 1"] snoc.prems(2,5) i b by simp
    moreover have "rowScore r = SCORE_GAP" using Delete by (simp add: rowScore_def)
    ultimately show ?thesis using fullDP_ge_up[OF i(1), of listA listB j] by simp
  next
    case Match
    with shape obtain x y where xy: "row_a r = Some x" "row_b r = Some y" by (auto simp: rowShape_def)
    have a: "a_sides (rows @ [r]) = a_sides rows @ [x]" and b: "b_sides (rows @ [r]) = b_sides rows @ [y]"
      using Match xy by (simp_all add: a_sides_def b_sides_def)
    from snoc_eq_take[OF _ snoc.prems(2)] snoc.prems(4) a
    have i: "0 < i" "a_sides rows = take (i - 1) listA" "x = listA ! (i - 1)" by simp_all
    from snoc_eq_take[OF _ snoc.prems(3)] snoc.prems(5) b
    have j: "0 < j" "b_sides rows = take (j - 1) listB" "y = listB ! (j - 1)" by simp_all
    have "totalScore rows \<le> fullDP listA listB (i - 1) (j - 1)"
      using snoc.IH[OF rest, of "i - 1" "j - 1"] snoc.prems(2,3) i j by simp
    moreover have "rowScore r = calculateScore (listA ! (i - 1)) (listB ! (j - 1))"
      using Match xy i j by (simp add: rowScore_def)
    ultimately show ?thesis using fullDP_ge_diag[OF i(1) j(1), of listA listB] by simp
  next
    case Mismatch
    with shape obtain x y where xy: "row_a r = Some x" "row_b r = Some y" by (auto simp: rowShape_def)
    have a: "a_sides (rows @ [r]) = a_sides rows @ [x]" and b: "b_sides (rows @ [r]) = b_sides rows @ [y]"
      using Mismatch xy by (simp_all add: a_sides_def b_sides_def)
    from snoc_eq_take[OF _ snoc.prems(2)] snoc.prems(4) a
    have i: "0 < i" "a_sides rows = take (i - 1) listA" "x = listA ! (i - 1)" by simp_all
    from snoc_eq_take[OF _ snoc.prems(3)] snoc.prems(5) b
    have j: "0 < j" "b_sides rows = take (j - 1) listB" "y = listB ! (j - 1)" by simp_all
    have "totalScore rows \<le> fullDP listA listB (i - 1) (j - 1)"
      using snoc.IH[OF rest, of "i - 1" "j - 1"] snoc.prems(2,3) i j by simp
    moreover have "rowScore r = calculateScore (listA ! (i - 1)) (listB ! (j - 1))"
      using Mismatch xy i j by (simp add: rowScore_def)
    ultimately show ?thesis using fullDP_ge_diag[OF i(1) j(1), of listA listB] by simp
  qed
qed

text \<open>
  Claim C5. For two traces of at most 50 events each, the banded dynamic
  program agrees with the full one: the score in the last cell of the banded
  table is the score \<open>fullDP\<close> of the full table, the diff that the aligner
  returns has this total score, and no diff that rebuilds the two traces has a
  higher one (so it is the optimal score).
\<close>

theorem banded_equals_full:
  assumes "length (lines traceA) \<le> 50" "length (lines traceB) \<le> 50"
  shows "getScore (length (lines traceA)) (length (lines traceB))
           (fst (fillTable (lines traceA) (lines traceB)))
         = Some (fullDP (lines traceA) (lines traceB) (length (lines traceA)) (length (lines traceB))) \<and>
         (\<exists>rows. alignTraces traceA traceB = Inr rows \<and>
            totalScore rows
              = fullDP (lines traceA) (lines traceB) (length (lines traceA)) (length (lines traceB))) \<and>
         (\<forall>rows'. list_all rowShape rows' \<and> a_sides rows' = lines traceA \<and> b_sides rows' = lines traceB
            \<longrightarrow> totalScore rows'
              \<le> fullDP (lines traceA) (lines traceB) (length (lines traceA)) (length (lines traceB)))"
proof (intro conjI allI impI)
  let ?A = "lines traceA" and ?B = "lines traceB"
  have B: "length ?B \<le> 200" using assms(2) by simp
  obtain scores directions where f: "fillTable ?A ?B = (scores, directions)"
    by (cases "fillTable ?A ?B")
  have good: "cellGood ?A ?B (scores, directions) i j"
    if "i \<le> length ?A" "j \<le> length ?B" "(i, j) \<noteq> (0, 0)" for i j
    using fillTable_good[OF B that] by (simp add: f)
  show "getScore (length ?A) (length ?B) (fst (fillTable ?A ?B))
      = Some (fullDP ?A ?B (length ?A) (length ?B))"
  proof (cases "(length ?A, length ?B) = (0, 0)")
    case True
    then show ?thesis by simp
  next
    case False
    from good[OF order_refl order_refl False] show ?thesis by (simp add: cellGood_def f)
  qed
  from traceback_score[of ?A ?B scores directions "length ?A" "length ?B" "[]"] good
  obtain pre where "traceback ?A ?B directions (length ?A) (length ?B) [] = Inr pre"
    "totalScore pre = fullDP ?A ?B (length ?A) (length ?B)"
    by auto
  then show "\<exists>rows. alignTraces traceA traceB = Inr rows \<and>
      totalScore rows = fullDP ?A ?B (length ?A) (length ?B)"
    by (simp add: alignTraces_def f Let_def)
next
  fix rows'
  assume "list_all rowShape rows' \<and> a_sides rows' = lines traceA \<and> b_sides rows' = lines traceB"
  then show "totalScore rows'
      \<le> fullDP (lines traceA) (lines traceB) (length (lines traceA)) (length (lines traceB))"
    using fullDP_optimal[of rows' "length (lines traceA)" "lines traceA" "length (lines traceB)" "lines traceB"]
    by simp
qed

lemma ex_fullDP: "fullDP (lines ex_traceA) (lines ex_traceB) 3 2 = 26"
  by code_simp

lemma ex_lengths: "length (lines ex_traceA) = 3" "length (lines ex_traceB) = 2"
  by (simp_all add: ex_traceA_def ex_traceB_def)

theorem banded_equals_full_witness:
  "length (lines ex_traceA) \<le> 50 \<and> length (lines ex_traceB) \<le> 50 \<and>
   getScore 3 2 (fst (fillTable (lines ex_traceA) (lines ex_traceB))) = Some 26 \<and>
   fullDP (lines ex_traceA) (lines ex_traceB) 3 2 = 26 \<and>
   totalScore [matchRow (ex_call 0 ''openat'' ''x'') (ex_call 0 ''openat'' ''x''),
          deleteRow (ex_call 1 ''read'' ''3''),
          matchRow (ex_call 2 ''close'' ''3'') (ex_call 1 ''close'' ''3'')] = 26"
proof -
  have l: "length (lines ex_traceA) \<le> 50" "length (lines ex_traceB) \<le> 50"
    by (simp_all add: ex_lengths)
  from banded_equals_full[OF l]
  have "getScore 3 2 (fst (fillTable (lines ex_traceA) (lines ex_traceB))) = Some 26"
    and "\<exists>rows. alignTraces ex_traceA ex_traceB = Inr rows \<and> totalScore rows = 26"
    by (simp_all add: ex_lengths ex_fullDP)
  then show ?thesis using l by (simp add: ex_align ex_fullDP)
qed

subsection \<open>Bounds on the pair score\<close>

lemma countCommon_le: "countCommon a b checkLen i common \<le> common + (checkLen - i)"
proof (induction a b checkLen i common rule: countCommon.induct)
  case (1 a b checkLen i common)
  show ?case
  proof (cases "i < checkLen \<and> a ! i = b ! i")
    case True
    then have "countCommon a b checkLen i common = countCommon a b checkLen (i + 1) (common + 1)"
      by (subst countCommon.simps) simp
    moreover have "countCommon a b checkLen (i + 1) (common + 1) \<le> (common + 1) + (checkLen - (i + 1))"
      using 1 True by simp
    ultimately show ?thesis using True by arith
  next
    case False
    then have "countCommon a b checkLen i common = common"
      by (subst countCommon.simps) auto
    then show ?thesis by simp
  qed
qed

lemma prefixSimilarity_le: "prefixSimilarity a b \<le> 1"
proof (cases "max (length a) (length b) = 0")
  case True
  then show ?thesis by (simp add: prefixSimilarity_def)
next
  case False
  define minLen where "minLen = min (length a) (length b)"
  define maxLen where "maxLen = max (length a) (length b)"
  define checkLen where "checkLen = min minLen 30"
  define common where "common = countCommon a b checkLen 0 0"
  have "common \<le> checkLen" using countCommon_le[of a b checkLen 0 0] by (simp add: common_def)
  then have "common \<le> max checkLen 1" by simp
  then have p: "(of_nat common :: rat) / of_nat (max checkLen 1) \<le> 1"
    by (simp add: divide_le_eq_1 del: of_nat_max)
  have "minLen \<le> maxLen" unfolding minLen_def maxLen_def by linarith
  have "0 < maxLen" using False unfolding maxLen_def by linarith
  note this = \<open>minLen \<le> maxLen\<close> \<open>0 < maxLen\<close>
  then have l: "(of_nat minLen :: rat) / of_nat maxLen \<le> 1" by (simp add: divide_le_eq_1)
  have "prefixSimilarity a b =
      of_nat common / of_nat (max checkLen 1) * (7 / 10) + of_nat minLen / of_nat maxLen * (3 / 10)"
  proof -
    have nz: "(max (length a) (length b) = 0) = False" using False by simp
    show ?thesis
      unfolding prefixSimilarity_def Let_def nz if_False common_def checkLen_def minLen_def maxLen_def ..
  qed
  also have "\<dots> \<le> 1 * (7 / 10) + 1 * (3 / 10)"
    by (intro add_mono mult_right_mono p l) simp_all
  finally show ?thesis by simp
qed

lemma pathSimilarity_le: "pathSimilarity pathA pathB \<le> 1"
  by (simp add: pathSimilarity_def Let_def)

lemma getArgSimilarity_le: "getArgSimilarity a b \<le> 1"
  by (simp add: getArgSimilarity_def pathSimilarity_le prefixSimilarity_le split: option.splits)

lemma calculateScore_le: "calculateScore x y \<le> 15"
proof -
  have "getArgSimilarity (args x) (args y) * 5 \<le> 1 * 5"
    by (rule mult_right_mono[OF getArgSimilarity_le]) simp
  moreover have "getArgSimilarity (args x) (args y) * (5 / 2) \<le> 1 * (5 / 2)"
    by (rule mult_right_mono[OF getArgSimilarity_le]) simp
  ultimately show ?thesis by (simp add: calculateScore_def score_consts Let_def)
qed

lemma calculateScore_self: "calculateScore x x = 15"
  by (simp add: calculateScore_def getArgSimilarity_def score_consts)

subsection \<open>An upper bound on every cell\<close>

text \<open>
  A path to the cell \<open>(i, j)\<close> has at most \<open>min i j\<close> diagonal steps, each worth
  at most 15, and pays the gap penalty for every other step.
\<close>

definition ub :: "nat \<Rightarrow> nat \<Rightarrow> rat" where
  "ub i j = 23 * of_nat (min i j) - 4 * of_nat (i + j)"

definition bounded :: "scoremap \<Rightarrow> bool" where
  "bounded scores = (\<forall>i j v. getScore i j scores = Some v \<longrightarrow> v \<le> ub i j)"

lemma ub_left: "0 < j \<Longrightarrow> ub i (j - 1) + SCORE_GAP \<le> ub i j"
  by (cases j) (auto simp: ub_def SCORE_GAP_def min_def)

lemma ub_up: "0 < i \<Longrightarrow> ub (i - 1) j + SCORE_GAP \<le> ub i j"
  by (cases i) (auto simp: ub_def SCORE_GAP_def min_def)

lemma ub_diag: "0 < i \<Longrightarrow> 0 < j \<Longrightarrow> ub (i - 1) (j - 1) + 15 \<le> ub i j"
  by (cases i; cases j) (auto simp: ub_def min_def)

lemma ub_border: "i = 0 \<or> j = 0 \<Longrightarrow> ub i j = of_nat (i + j) * SCORE_GAP"
  by (auto simp: ub_def SCORE_GAP_def)

lemma bounded_empty: "bounded Map.empty"
  by (auto simp: bounded_def getScore_def ub_border split: if_splits)

lemma cand_bounded:
  assumes "bounded scores"
  shows "candLeft i j scores = Some v \<Longrightarrow> v \<le> ub i j"
    and "candUp i j scores = Some v \<Longrightarrow> v \<le> ub i j"
    and "candDiag listA listB i j scores = Some v \<Longrightarrow> v \<le> ub i j"
proof -
  assume "candLeft i j scores = Some v"
  then obtain l where "0 < j" "getScore i (j - 1) scores = Some l" "v = l + SCORE_GAP"
    by (auto simp: candLeft_def split: if_splits)
  moreover from this assms have "l \<le> ub i (j - 1)" by (auto simp: bounded_def)
  ultimately show "v \<le> ub i j" using ub_left[of j i] by simp
next
  assume "candUp i j scores = Some v"
  then obtain u where "0 < i" "getScore (i - 1) j scores = Some u" "v = u + SCORE_GAP"
    by (auto simp: candUp_def split: if_splits)
  moreover from this assms have "u \<le> ub (i - 1) j" by (auto simp: bounded_def)
  ultimately show "v \<le> ub i j" using ub_up[of i j] by simp
next
  assume "candDiag listA listB i j scores = Some v"
  then obtain d where d: "0 < i" "0 < j" "getScore (i - 1) (j - 1) scores = Some d"
    "v = d + calculateScore (listA ! (i - 1)) (listB ! (j - 1))"
    by (auto simp: candDiag_def split: if_splits)
  moreover from this assms have "d \<le> ub (i - 1) (j - 1)" by (auto simp: bounded_def)
  ultimately show "v \<le> ub i j"
    using ub_diag[of i j] calculateScore_le[of "listA ! (i - 1)" "listB ! (j - 1)"] by simp
qed

lemma fillCell_bounded:
  assumes "bounded (fst st)"
  shows "bounded (fst (fillCell listA listB i j st))"
proof -
  obtain scores directions where st: "st = (scores, directions)" by (cases st)
  have b: "bounded scores" using assms by (simp add: st)
  show ?thesis
  proof (cases "i = 0 \<and> j = 0")
    case True
    have "getScore i' j' (scores((0, 0) \<mapsto> 0)) = getScore i' j' scores" for i' j'
      by (simp add: getScore_def)
    with b True show ?thesis by (simp add: st fillCell_origin bounded_def)
  next
    case False
    obtain best x where p: "pick (candLeft i j scores) (candUp i j scores) (candDiag listA listB i j scores)
        = (best, x)"
      by (cases "pick (candLeft i j scores) (candUp i j scores) (candDiag listA listB i j scores)")
    show ?thesis
    proof (cases best)
      case None
      with p b show ?thesis by (simp add: st fillCell_unfold[OF False])
    next
      case (Some v)
      from pick_Some[OF p[unfolded Some]]
      have v: "v \<le> ub i j" by (cases x) (auto dest: cand_bounded[OF b])
      have cell: "fst (fillCell listA listB i j st) = scores((i, j) \<mapsto> v)"
        using p Some by (simp add: st fillCell_unfold[OF False])
      show ?thesis
        unfolding cell bounded_def
      proof (intro allI impI)
        fix i' j' w
        assume g: "getScore i' j' (scores((i, j) \<mapsto> v)) = Some w"
        show "w \<le> ub i' j'"
        proof (cases "(i', j') = (i, j) \<and> 0 < i \<and> 0 < j")
          case True
          with g v show ?thesis by (simp add: getScore_def)
        next
          case False
          then have "getScore i' j' (scores((i, j) \<mapsto> v)) = getScore i' j' scores"
            by (auto simp: getScore_def)
          with g b show ?thesis by (simp add: bounded_def)
        qed
      qed
    qed
  qed
qed

lemma fold_fillCell_bounded:
  "bounded (fst st) \<Longrightarrow> bounded (fst (fold (fillCell listA listB i) js st))"
  by (induction js arbitrary: st) (simp_all add: fillCell_bounded)

lemma fold_fillCell_frame:
  assumes "i' \<noteq> i \<or> j' \<notin> set js"
  shows "fst (fold (fillCell listA listB i) js st) (i', j') = fst st (i', j')"
    and "snd (fold (fillCell listA listB i) js st) (i', j') = snd st (i', j')"
  using assms
  by (induction js arbitrary: st) (auto simp: fillCell_frame)

subsection \<open>Aligning a sequence with itself\<close>

lemma bandCols_self:
  assumes "0 < n" "r \<le> n"
  shows "\<exists>pre post. bandCols n n r = pre @ r # post \<and> r \<notin> set post"
proof -
  have c: "\<lfloor>(of_nat r :: rat) * (of_nat n / of_nat n)\<rfloor> = int r" using assms(1) by simp
  define lo where "lo = max 0 (int r - bandK n n)"
  define hi where "hi = min (int n) (int r + bandK n n)"
  have K: "0 \<le> bandK n n" by (simp add: bandK_def)
  have lo: "lo \<le> int r" and hi: "int r \<le> hi" using K assms(2) by (simp_all add: lo_def hi_def)
  have cols: "bandCols n n r = map nat [lo..hi]"
    using assms(1) unfolding bandCols_def Let_def c lo_def hi_def by simp
  have "[lo..hi] = [lo..int r - 1] @ int r # [int r + 1..hi]"
    by (rule upto_split3[OF lo hi])
  then have "bandCols n n r = map nat [lo..int r - 1] @ r # map nat [int r + 1..hi]"
    by (simp add: cols)
  moreover have "r \<notin> set (map nat [int r + 1..hi])"
  proof
    assume "r \<in> set (map nat [int r + 1..hi])"
    then obtain z where "int r + 1 \<le> z" "r = nat z" by auto
    then show False by linarith
  qed
  ultimately show ?thesis by blast
qed

lemma pick_diag_best:
  assumes "\<And>v. l = Some v \<Longrightarrow> v \<le> d" "\<And>v. u = Some v \<Longrightarrow> v \<le> d"
  shows "pick l u (Some d) = (Some d, Diag)"
  using assms by (cases l; cases u) (auto simp: pick_def)

lemma ub_diagonal: "ub r r = 15 * of_nat r"
  by (simp add: ub_def)

lemma fillCell_diagonal:
  assumes "bounded scores" "0 < r"
    and "getScore (r - 1) (r - 1) scores = Some (15 * of_nat (r - 1))"
    and "listB ! (r - 1) = listA ! (r - 1)"
  shows "fillCell listA listB r r (scores, directions) =
     (scores((r, r) \<mapsto> 15 * of_nat r), directions((r, r) \<mapsto> Diag))"
proof -
  have "15 * rat_of_nat (r - 1) + 15 = 15 * of_nat r"
    using assms(2) by (cases r) (simp_all add: algebra_simps)
  then have d: "candDiag listA listB r r scores = Some (15 * of_nat r)"
    using assms(2,3,4) by (simp add: candDiag_def calculateScore_self)
  have "pick (candLeft r r scores) (candUp r r scores) (Some (15 * of_nat r)) = (Some (15 * of_nat r), Diag)"
    using cand_bounded(1,2)[OF assms(1), of r r] by (intro pick_diag_best) (simp_all add: ub_diagonal)
  then show ?thesis using assms(2) by (simp add: fillCell_unfold d)
qed

definition diagOK :: "scoremap \<times> dirmap \<Rightarrow> nat \<Rightarrow> bool" where
  "diagOK st r =
     (\<forall>k. 0 < k \<and> k < r \<longrightarrow> fst st (k, k) = Some (15 * of_nat k) \<and> snd st (k, k) = Some Diag)"

lemma diagOK_frame:
  assumes "diagOK st r" "\<And>k. 0 < k \<Longrightarrow> k < r \<Longrightarrow> fst st' (k, k) = fst st (k, k) \<and> snd st' (k, k) = snd st (k, k)"
  shows "diagOK st' r"
  using assms by (simp add: diagOK_def)

lemma fillRow_self:
  assumes b: "bounded (fst st)" and d: "diagOK st r" and n: "0 < length xs" and r: "r \<le> length xs"
  shows "bounded (fst (fillRow xs xs r st)) \<and> diagOK (fillRow xs xs r st) (Suc r)"
proof -
  from bandCols_self[OF n r] obtain pre post
    where cols: "bandCols (length xs) (length xs) r = pre @ r # post" and post: "r \<notin> set post"
    by blast
  define st1 where "st1 = fold (fillCell xs xs r) pre st"
  define st2 where "st2 = fillCell xs xs r r st1"
  define st3 where "st3 = fold (fillCell xs xs r) post st2"
  have row: "fillRow xs xs r st = st3"
    by (simp add: fillRow_def cols st1_def st2_def st3_def)
  have b1: "bounded (fst st1)" unfolding st1_def by (rule fold_fillCell_bounded[OF b])
  have d1: "diagOK st1 r"
    by (rule diagOK_frame[OF d]) (simp add: st1_def fold_fillCell_frame)
  have b2: "bounded (fst st2)" unfolding st2_def by (rule fillCell_bounded[OF b1])
  have d2: "diagOK st2 (Suc r)"
  proof (cases "r = 0")
    case True
    then show ?thesis by (simp add: diagOK_def)
  next
    case False
    then have rpos: "0 < r" by simp
    obtain sc dr where s1: "st1 = (sc, dr)" by (cases st1)
    have prev: "getScore (r - 1) (r - 1) sc = Some (15 * of_nat (r - 1))"
    proof (cases "r = 1")
      case True
      then show ?thesis by simp
    next
      case False
      with rpos d1 have "sc (r - 1, r - 1) = Some (15 * of_nat (r - 1))"
        by (simp add: diagOK_def s1)
      with False rpos show ?thesis by (simp add: getScore_def)
    qed
    have cell: "st2 = (sc((r, r) \<mapsto> 15 * of_nat r), dr((r, r) \<mapsto> Diag))"
      unfolding st2_def s1 using b1 rpos prev by (intro fillCell_diagonal) (simp_all add: s1)
    show ?thesis
      unfolding diagOK_def
    proof (intro allI impI)
      fix k assume k: "0 < k \<and> k < Suc r"
      show "fst st2 (k, k) = Some (15 * of_nat k) \<and> snd st2 (k, k) = Some Diag"
      proof (cases "k = r")
        case True
        then show ?thesis by (simp add: cell)
      next
        case False
        with k have "k < r" by simp
        with k d1 False show ?thesis by (simp add: cell diagOK_def s1)
      qed
    qed
  qed
  have b3: "bounded (fst st3)" unfolding st3_def by (rule fold_fillCell_bounded[OF b2])
  have d3: "diagOK st3 (Suc r)"
  proof (rule diagOK_frame[OF d2])
    fix k assume "0 < k" "k < Suc r"
    then have "k \<noteq> r \<or> k \<notin> set post" using post by auto
    then show "fst st3 (k, k) = fst st2 (k, k) \<and> snd st3 (k, k) = snd st2 (k, k)"
      by (simp add: st3_def fold_fillCell_frame)
  qed
  from b3 d3 show ?thesis by (simp add: row)
qed

lemma fillRows_self:
  assumes "0 < length xs" "k \<le> Suc (length xs)"
  shows "bounded (fst (fold (fillRow xs xs) [0..<k] (Map.empty, Map.empty))) \<and>
         diagOK (fold (fillRow xs xs) [0..<k] (Map.empty, Map.empty)) k"
  using assms(2)
proof (induction k)
  case 0
  show ?case by (simp add: bounded_empty diagOK_def)
next
  case (Suc k)
  then have IH: "bounded (fst (fold (fillRow xs xs) [0..<k] (Map.empty, Map.empty)))"
      "diagOK (fold (fillRow xs xs) [0..<k] (Map.empty, Map.empty)) k"
    and k: "k \<le> length xs" by simp_all
  have "fold (fillRow xs xs) [0..<Suc k] (Map.empty, Map.empty) =
      fillRow xs xs k (fold (fillRow xs xs) [0..<k] (Map.empty, Map.empty))"
    by simp
  with fillRow_self[OF IH assms(1) k] show ?case by (simp only:)
qed

lemma fillTable_self:
  assumes "0 < k" "k \<le> length xs"
  shows "snd (fillTable xs xs) (k, k) = Some Diag"
proof -
  have "0 < length xs" using assms by linarith
  from fillRows_self[OF this order_refl]
  have "diagOK (fillTable xs xs) (Suc (length xs))" by (simp add: fillTable_def)
  with assms show ?thesis by (simp add: diagOK_def)
qed

lemma traceback_diagonal:
  assumes "\<And>k. 0 < k \<Longrightarrow> k \<le> length xs \<Longrightarrow> directions (k, k) = Some Diag"
  shows "i \<le> length xs \<Longrightarrow>
     traceback xs xs directions i i rows = Inr (map (\<lambda>x. matchRow x x) (take i xs) @ rows)"
proof (induction i arbitrary: rows)
  case 0
  show ?case by (simp add: traceback_stop)
next
  case (Suc i)
  have d: "directions (Suc i, Suc i) = Some Diag" using assms Suc.prems by simp
  have "traceback xs xs directions (Suc i) (Suc i) rows =
      traceback xs xs directions i i (matchRow (xs ! i) (xs ! i) # rows)"
    using traceback_Diag[of directions "Suc i" "Suc i" xs xs rows] d by (simp add: calculateScore_self)
  also have "\<dots> = Inr (map (\<lambda>x. matchRow x x) (take i xs) @ matchRow (xs ! i) (xs ! i) # rows)"
    using Suc by simp
  also have "\<dots> = Inr (map (\<lambda>x. matchRow x x) (take (Suc i) xs) @ rows)"
    using Suc.prems by (simp add: take_Suc_conv_app_nth)
  finally show ?case .
qed

lemma alignTraces_self: "alignTraces t t = Inr (map (\<lambda>x. matchRow x x) (lines t))"
proof -
  obtain scores directions where f: "fillTable (lines t) (lines t) = (scores, directions)"
    by (cases "fillTable (lines t) (lines t)")
  have "directions (k, k) = Some Diag" if "0 < k" "k \<le> length (lines t)" for k
    using fillTable_self[OF that] by (simp add: f)
  from traceback_diagonal[of "lines t" directions "length (lines t)" "[]", OF this]
  show ?thesis by (simp add: alignTraces_def f Let_def)
qed

section \<open>Verification of the parsers\<close>

subsection \<open>Facts about the matcher\<close>

text \<open>A match returns one capture for every group of the expression.\<close>

lemma run_length:
  "run r s caps cur = Some res \<Longrightarrow> length res = length caps + count_list r Close"
  by (induction r s caps cur rule: run.induct) (auto split: if_splits option.splits)



text \<open>What a successful match has consumed, item by item.\<close>

lemma run_OnceE:
  assumes "run (Atom p Once # r) s caps cur = Some res"
  obtains c cs where "s = c # cs" "p c" "run r cs caps (c # cur) = Some res"
  using assms by (cases s) (auto split: if_splits)



lemma run_LazyStarE:
  assumes "run (Atom p LazyStar # r) s caps cur = Some res"
  obtains pre post where "s = pre @ post" "list_all p pre" "run r post caps (rev pre @ cur) = Some res"
proof -
  have "\<exists>pre post. s = pre @ post \<and> list_all p pre \<and> run r post caps (rev pre @ cur) = Some res"
    using assms
  proof (induction s arbitrary: cur)
    case Nil
    then show ?case by (intro exI[of _ "[]"]) simp
  next
    case (Cons c cs)
    show ?case
    proof (cases "run r (c # cs) caps cur")
      case (Some res')
      with Cons.prems have "run r (c # cs) caps cur = Some res" by simp
      then show ?thesis by (intro exI[of _ "[]"] exI[of _ "c # cs"]) simp
    next
      case None
      with Cons.prems have c: "p c" "run (Atom p LazyStar # r) cs caps (c # cur) = Some res"
        by (auto split: if_splits)
      from Cons.IH[OF c(2)] obtain pre post
        where "cs = pre @ post" "list_all p pre" "run r post caps (rev pre @ c # cur) = Some res"
        by blast
      with c show ?thesis
        by (intro exI[of _ "c # pre"] exI[of _ post]) simp
    qed
  qed
  with that show thesis by blast
qed

lemma run_LazyPlusE:
  assumes "run (Atom p LazyPlus # r) s caps cur = Some res"
  obtains pre post where "s = pre @ post" "pre \<noteq> []" "list_all p pre"
    "run r post caps (rev pre @ cur) = Some res"
proof -
  from assms obtain c cs where s: "s = c # cs" "p c" "run (Atom p LazyStar # r) cs caps (c # cur) = Some res"
    by (cases s) (auto split: if_splits)
  from run_LazyStarE[OF s(3)] obtain pre post
    where "cs = pre @ post" "list_all p pre" "run r post caps (rev pre @ c # cur) = Some res"
    by blast
  with s that[of "c # pre" post] show thesis by simp
qed



subsection \<open>Numbers in captured text\<close>

text \<open>A number other than \<open>NaN\<close>; a finite number.\<close>

definition isNum :: "jsnum \<Rightarrow> bool" where
  "isNum x = (x \<noteq> NaN)"

fun isFinite :: "jsnum \<Rightarrow> bool" where
  "isFinite (Num x) = True"
| "isFinite _ = False"

text \<open>\<^verbatim>\<open>x <= y\<close> and \<^verbatim>\<open>x < y\<close> on two numbers: false when one of them is \<open>NaN\<close>.\<close>

fun jle :: "jsnum \<Rightarrow> jsnum \<Rightarrow> bool" where
  "jle NaN _ = False"
| "jle _ NaN = False"
| "jle NegInf _ = True"
| "jle _ PosInf = True"
| "jle PosInf _ = False"
| "jle _ NegInf = False"
| "jle (Num x) (Num y) = (x \<le> y)"


text \<open>A number that is not negative: \<^verbatim>\<open>0 <= x\<close>. It may be the positive infinity.\<close>

fun nonNeg :: "jsnum \<Rightarrow> bool" where
  "nonNeg (Num x) = (0 \<le> x)"
| "nonNeg PosInf = True"
| "nonNeg _ = False"

lemma nonNeg_jle: "nonNeg x = jle (Num 0) x"
  by (cases x) simp_all

lemma OVERFLOW_pos: "0 < OVERFLOW"
  by (simp add: OVERFLOW_def)

lemma nonNeg_fin: "0 \<le> x \<Longrightarrow> nonNeg (fin x)"
  using OVERFLOW_pos by (simp add: fin_def)

lemma isFinite_fin_cases: "fin x = PosInf \<or> fin x = NegInf \<or> fin x = Num x"
  by (simp add: fin_def)

lemma jpos_fin: "jpos (fin x) = (0 < x)"
  using OVERFLOW_pos by (auto simp: fin_def)

lemma digitsVal_nat: "\<exists>n. foldl (\<lambda>n c. 10 * n + digitVal c) (int k) ds = int n"
proof (induction ds arbitrary: k)
  case Nil
  show ?case by auto
next
  case (Cons c ds)
  have "10 * int k + digitVal c = int (10 * k + (of_char c - 48))"
    by (simp add: digitVal_def)
  then show ?case using Cons[of "10 * k + (of_char c - 48)"] by simp
qed

lemma digitsVal_of_nat: "\<exists>n. digitsVal ds = int n"
  using digitsVal_nat[of 0 ds] by (simp add: digitsVal_def)

lemma digitsVal_nonneg: "0 \<le> digitsVal ds"
proof -
  obtain n where "digitsVal ds = int n" using digitsVal_of_nat by blast
  then show ?thesis by simp
qed


lemma parseInt_cases: "parseInt s = NaN \<or> nonNeg (parseInt s)"
proof -
  have "nonNeg (fin (of_int (digitsVal ds)))" for ds
    by (rule nonNeg_fin) (simp add: digitsVal_nonneg)
  then show ?thesis by (simp add: parseInt_def Let_def)
qed

lemma parseFloat_cases: "parseFloat s = NaN \<or> nonNeg (parseFloat s)"
proof -
  have "nonNeg (fin (of_int (digitsVal ip) + of_int (digitsVal fp) / 10 ^ length fp))" for ip fp
    by (rule nonNeg_fin) (simp add: digitsVal_nonneg)
  then show ?thesis by (simp add: parseFloat_def Let_def)
qed



subsection \<open>Arithmetic on numbers that may be NaN or infinite\<close>


lemma isFinite_isNum: "isFinite x \<Longrightarrow> isNum x"
  by (cases x) (simp_all add: isNum_def)

lemma isFinite_jsub: "isFinite (jsub x y) \<Longrightarrow> isFinite x"
  by (cases x; cases y) simp_all

lemma isNum_orElse: "isNum y \<Longrightarrow> isNum (orElse v y)"
  by (cases "(v, y)" rule: orElse.cases) (auto simp: isNum_def)

lemma max0_cases: "max0 x = NaN \<or> nonNeg (max0 x)"
  by (cases x) simp_all

lemma nonNeg_jdiv: "nonNeg x \<Longrightarrow> 0 < c \<Longrightarrow> nonNeg (jdiv x c)"
  by (cases x) simp_all

lemma gap_cases: "jdiv (max0 x) 1000 = NaN \<or> nonNeg (jdiv (max0 x) 1000)"
  by (cases x) simp_all

lemma isNum_jsub_finite: "isFinite x \<Longrightarrow> isNum y \<Longrightarrow> isNum (jsub x y)"
  by (cases x; cases y) (simp_all add: isNum_def fin_def)

lemma nonNeg_gap: "isNum x \<Longrightarrow> nonNeg (jdiv (max0 x) 1000)"
  by (cases x) (simp_all add: isNum_def)

lemma duration_cases: "parseFloat s = NaN \<or> nonNeg (parseFloat s)"
  by (rule parseFloat_cases)

lemma duration_sec_cases: "jdiv (parseFloat s) 1000 = NaN \<or> nonNeg (jdiv (parseFloat s) 1000)"
  by (cases "parseFloat s") (use parseFloat_cases[of s] in simp_all)

text \<open>
  An event is well-formed when its duration is \<open>NaN\<close> or not negative, its idle
  gap is \<open>NaN\<close> or not negative, and the idle gap is not \<open>NaN\<close> when the relative
  start time of the event is finite.
\<close>

definition lineOK :: "TraceLine \<Rightarrow> bool" where
  "lineOK l =
     ((duration l = NaN \<or> nonNeg (duration l)) \<and>
      (userDiff l = NaN \<or> nonNeg (userDiff l)) \<and>
      (isFinite (timestampEpoch l) \<longrightarrow> nonNeg (userDiff l)))"

text \<open>
  Both parsers compute the relative start time and the idle gap of an event
  from the start \<open>c\<close> of the call, the start \<open>g\<close> of the trace and the entry \<open>v\<close>
  of the process in the table of last end times.
\<close>

lemma lineOK_made:
  assumes "timestampEpoch l = jsub c g"
    and "userDiff l = jdiv (max0 (jsub c (orElse v c))) 1000"
    and "duration l = NaN \<or> nonNeg (duration l)"
  shows "lineOK l"
proof -
  have "nonNeg (userDiff l)" if "isFinite (timestampEpoch l)"
  proof -
    have c: "isFinite c" using that isFinite_jsub[of c g] by (simp add: assms(1))
    then have "isNum (orElse v c)" by (simp add: isNum_orElse isFinite_isNum)
    with c have "isNum (jsub c (orElse v c))" by (rule isNum_jsub_finite)
    then show ?thesis unfolding assms(2) by (rule nonNeg_gap)
  qed
  then show ?thesis
    unfolding lineOK_def using assms(3) gap_cases[of "jsub c (orElse v c)"]
    by (simp add: assms(2))
qed

subsection \<open>The single-line parser, step by step\<close>

lemma perfStep_skip:
  "trim rawLine = [] \<or> rmatch perfRegex (trim rawLine) = None \<Longrightarrow>
   perfStep (rawLine, index) st = st"
  by (auto simp: perfStep_def Let_def)

lemma perfStep_match:
  assumes "trim rawLine \<noteq> []" "rmatch perfRegex (trim rawLine) = Some m"
  shows "\<exists>l. linesAcc (perfStep (rawLine, index) st) = linesAcc st @ [l] \<and>
     line_id l = index \<and> raw l = rawLine \<and> timestamp l = m ! 0 \<and>
     timestampEpoch l = jsub (parsePerfTimestamp (m ! 0))
        (if hasSetStartTime st then globalStartTime st else parsePerfTimestamp (m ! 0)) \<and>
     duration l = jdiv (parseFloat (m ! 1)) 1000 \<and>
     userDiff l = jdiv (max0 (jsub (parsePerfTimestamp (m ! 0))
        (orElse (pidLastEndTime st (parseInt (m ! 3))) (parsePerfTimestamp (m ! 0))))) 1000"
  using assms by (simp add: perfStep_def Let_def)

lemma perfStep_start:
  assumes "trim rawLine \<noteq> []" "rmatch perfRegex (trim rawLine) = Some m"
  shows "hasSetStartTime (perfStep (rawLine, index) st) \<and>
     globalStartTime (perfStep (rawLine, index) st) =
       (if hasSetStartTime st then globalStartTime st else parsePerfTimestamp (m ! 0))"
  using assms by (simp add: perfStep_def Let_def)

definition perfOK :: "ParseState \<Rightarrow> bool" where
  "perfOK st = list_all lineOK (linesAcc st)"

lemma perfStep_OK:
  assumes "perfOK st"
  shows "perfOK (perfStep entry st)"
proof -
  obtain rawLine index where e: "entry = (rawLine, index)" by (cases entry)
  show ?thesis
  proof (cases "trim rawLine = [] \<or> rmatch perfRegex (trim rawLine) = None")
    case True
    then show ?thesis using assms by (simp add: e perfStep_skip)
  next
    case False
    then obtain m where m: "trim rawLine \<noteq> []" "rmatch perfRegex (trim rawLine) = Some m" by auto
    from perfStep_match[OF m, of index st] obtain l
      where l: "linesAcc (perfStep (rawLine, index) st) = linesAcc st @ [l]"
        "timestampEpoch l = jsub (parsePerfTimestamp (m ! 0))
          (if hasSetStartTime st then globalStartTime st else parsePerfTimestamp (m ! 0))"
        "duration l = jdiv (parseFloat (m ! 1)) 1000"
        "userDiff l = jdiv (max0 (jsub (parsePerfTimestamp (m ! 0))
          (orElse (pidLastEndTime st (parseInt (m ! 3))) (parsePerfTimestamp (m ! 0))))) 1000"
      by blast
    have "duration l = NaN \<or> nonNeg (duration l)"
      unfolding l(3) by (rule duration_sec_cases)
    from lineOK_made[OF l(2) l(4) this] have "lineOK l" .
    then show ?thesis using assms by (simp add: perfOK_def e l(1))
  qed
qed

lemma fold_perfStep_OK: "perfOK st \<Longrightarrow> perfOK (fold perfStep entries st)"
  by (induction entries arbitrary: st) (simp_all add: perfStep_OK)

lemma initPerf_OK: "perfOK initPerf"
  by (simp add: perfOK_def initPerf_def)

text \<open>The events keep the order of their input lines.\<close>

lemma perfStep_ids:
  assumes "sorted_wrt (<) (map line_id (linesAcc st))" "\<forall>l \<in> set (linesAcc st). line_id l < k"
  shows "sorted_wrt (<) (map line_id (linesAcc (perfStep (rawLine, k) st))) \<and>
         (\<forall>l \<in> set (linesAcc (perfStep (rawLine, k) st)). line_id l < Suc k)"
proof (cases "trim rawLine = [] \<or> rmatch perfRegex (trim rawLine) = None")
  case True
  then show ?thesis using assms by (auto simp: perfStep_skip less_Suc_eq)
next
  case False
  then obtain m where m: "trim rawLine \<noteq> []" "rmatch perfRegex (trim rawLine) = Some m" by auto
  from perfStep_match[OF m, of k st] obtain l
    where "linesAcc (perfStep (rawLine, k) st) = linesAcc st @ [l]" "line_id l = k"
    by blast
  then show ?thesis using assms by (auto simp: sorted_wrt_append less_Suc_eq)
qed

lemma fold_perfStep_ids:
  assumes "sorted_wrt (<) (map line_id (linesAcc st))" "\<forall>l \<in> set (linesAcc st). line_id l < k"
  shows "sorted_wrt (<) (map line_id (linesAcc (fold perfStep (zip xs [k..<k + length xs]) st)))"
  using assms
proof (induction xs arbitrary: k st)
  case Nil
  then show ?case by simp
next
  case (Cons x xs)
  have z: "zip (x # xs) [k..<k + length (x # xs)] = (x, k) # zip xs [Suc k..<Suc k + length xs]"
    by (simp add: upt_conv_Cons del: upt_Suc)
  from perfStep_ids[OF Cons.prems, of x]
  have "sorted_wrt (<) (map line_id (linesAcc (perfStep (x, k) st)))"
    "\<forall>l \<in> set (linesAcc (perfStep (x, k) st)). line_id l < Suc k"
    by simp_all
  from Cons.IH[OF this] show ?case unfolding z by (simp only: fold.simps comp_apply)
qed

lemma perf_steps_count:
  "length (linesAcc (fold perfStep entries st)) \<le> length (linesAcc st) + length entries"
proof (induction entries arbitrary: st)
  case Nil
  show ?case by simp
next
  case (Cons e entries)
  obtain rawLine index where e: "e = (rawLine, index)" by (cases e)
  have "length (linesAcc (perfStep e st)) \<le> length (linesAcc st) + 1"
  proof (cases "trim rawLine = [] \<or> rmatch perfRegex (trim rawLine) = None")
    case True
    then show ?thesis by (simp add: e perfStep_skip)
  next
    case False
    then obtain m where m: "trim rawLine \<noteq> []" "rmatch perfRegex (trim rawLine) = Some m" by auto
    from perfStep_match[OF m, of index st] show ?thesis by (auto simp: e)
  qed
  with Cons.IH[of "perfStep e st"] show ?case by simp
qed

subsection \<open>The line-envelope parser, step by step\<close>

definition straceOK :: "StraceState \<Rightarrow> bool" where
  "straceOK st = list_all lineOK (linesAcc st)"

text \<open>What a resumed line does: nothing, or one event for the pending call.\<close>

lemma resumeCall_cases:
  "resumeCall rawLine index p currentEpoch rm st = st \<or>
   (\<exists>pending em.
      pendingCalls st p = Some pending \<and> syscallP pending = rm ! 0 \<and>
      rsearch endRegex (rm ! 1) = Some em \<and>
      resumeCall rawLine index p currentEpoch rm st =
        st\<lparr>pidLastEndTime := (pidLastEndTime st)(p \<mapsto> currentEpoch),
           linesAcc := linesAcc st @
             [\<lparr>line_id = index, pid = p, timestamp = timestampStr pending,
               timestampEpoch = jsub (startEpoch pending) (globalStartTime st),
               syscall = rm ! 0, args = trim (startArgs pending @ em ! 0), result = em ! 1,
               duration = parseFloat (em ! 2),
               userDiff = jdiv (max0 (jsub (startEpoch pending)
                  (orElse (pidLastEndTime st p) (startEpoch pending)))) 1000,
               raw = rawStart pending @ '' ... '' @ rawLine\<rparr>],
           pendingCalls := (pendingCalls st)(p := None)\<rparr>)"
  by (auto simp: resumeCall_def Let_def split: option.splits)


lemma resumeCall_OK:
  assumes "straceOK st"
  shows "straceOK (resumeCall rawLine index p currentEpoch rm st)"
  using resumeCall_cases[of rawLine index p currentEpoch rm st]
proof (elim disjE exE conjE)
  assume "resumeCall rawLine index p currentEpoch rm st = st"
  with assms show ?thesis by simp
next
  fix pending em
  assume pd: "pendingCalls st p = Some pending"
    and eq: "resumeCall rawLine index p currentEpoch rm st =
        st\<lparr>pidLastEndTime := (pidLastEndTime st)(p \<mapsto> currentEpoch),
           linesAcc := linesAcc st @
             [\<lparr>line_id = index, pid = p, timestamp = timestampStr pending,
               timestampEpoch = jsub (startEpoch pending) (globalStartTime st),
               syscall = rm ! 0, args = trim (startArgs pending @ em ! 0), result = em ! 1,
               duration = parseFloat (em ! 2),
               userDiff = jdiv (max0 (jsub (startEpoch pending)
                  (orElse (pidLastEndTime st p) (startEpoch pending)))) 1000,
               raw = rawStart pending @ '' ... '' @ rawLine\<rparr>],
           pendingCalls := (pendingCalls st)(p := None)\<rparr>"
  have "lineOK \<lparr>line_id = index, pid = p, timestamp = timestampStr pending,
               timestampEpoch = jsub (startEpoch pending) (globalStartTime st),
               syscall = rm ! 0, args = trim (startArgs pending @ em ! 0), result = em ! 1,
               duration = parseFloat (em ! 2),
               userDiff = jdiv (max0 (jsub (startEpoch pending)
                  (orElse (pidLastEndTime st p) (startEpoch pending)))) 1000,
               raw = rawStart pending @ '' ... '' @ rawLine\<rparr>"
    by (rule lineOK_made[where c = "startEpoch pending" and g = "globalStartTime st"
          and v = "pidLastEndTime st p"]) (simp_all add: duration_cases)
  then show ?thesis using assms unfolding eq by (simp add: straceOK_def)
qed

lemma unfinishedCall_OK:
  assumes "straceOK st"
  shows "straceOK (unfinishedCall rawLine p tsStr currentEpoch um st)"
  using assms by (simp add: straceOK_def unfinishedCall_def)

lemma standardCall_OK:
  assumes "straceOK st"
  shows "straceOK (standardCall rawLine index p tsStr currentEpoch sm st)"
proof -
  have "lineOK \<lparr>line_id = index, pid = p, timestamp = tsStr,
                  timestampEpoch = jsub currentEpoch (globalStartTime st),
                  syscall = sm ! 0, args = sm ! 1, result = sm ! 2,
                  duration = parseFloat (sm ! 3),
                  userDiff = jdiv (max0 (jsub currentEpoch (orElse (pidLastEndTime st p) currentEpoch))) 1000,
                  raw = rawLine\<rparr>"
    by (rule lineOK_made[where c = currentEpoch and g = "globalStartTime st"
          and v = "pidLastEndTime st p"]) (simp_all add: duration_cases)
  then show ?thesis using assms by (simp add: straceOK_def standardCall_def Let_def)
qed

lemma analyzeBody_OK:
  assumes "straceOK st"
  shows "straceOK (analyzeBody rawLine index p tsStr currentEpoch body st)"
  using assms
  by (auto simp: analyzeBody_def resumeCall_OK unfinishedCall_OK standardCall_OK split: option.splits)

lemma straceStep_OK:
  assumes "straceOK st"
  shows "straceOK (straceStep entry st)"
proof -
  obtain rawLine index where e: "entry = (rawLine, index)" by (cases entry)
  obtain p rest where x: "extractPid (trim rawLine) = (p, rest)" by (cases "extractPid (trim rawLine)")
  define st1 where "st1 = st\<lparr>uniquePids := setAdd p (uniquePids st)\<rparr>"
  have ok1: "straceOK st1" using assms by (simp add: st1_def straceOK_def)
  show ?thesis
  proof (cases "trim rawLine = []")
    case True
    then show ?thesis using assms by (simp add: straceStep_def e)
  next
    case ne: False
    show ?thesis
    proof (cases "rmatch timeRegex rest")
      case None
      then show ?thesis using ok1 ne by (simp add: straceStep_def e x st1_def)
    next
      case (Some tm)
      define cur where "cur = parseTimestamp (tm ! 0)"
      define st2 where "st2 = (if \<not> hasSetStartTime st1
          then st1\<lparr>globalStartTime := cur, hasSetStartTime := True\<rparr> else st1)"
      define st3 where "st3 = (if pidLastEndTime st2 p = None
          then st2\<lparr>pidLastEndTime := (pidLastEndTime st2)(p \<mapsto> cur)\<rparr> else st2)"
      have ok2: "straceOK st2" using ok1 by (simp add: st2_def straceOK_def)
      have ok3: "straceOK st3" using ok2 by (simp add: st3_def straceOK_def)
      have "straceStep entry st = analyzeBody rawLine index p (tm ! 0) cur (tm ! 1) st3"
        using ne Some
        by (simp add: straceStep_def e x Let_def st1_def st2_def st3_def cur_def)
      then show ?thesis using analyzeBody_OK[OF ok3] by simp
    qed
  qed
qed

lemma fold_straceStep_OK: "straceOK st \<Longrightarrow> straceOK (fold straceStep entries st)"
  by (induction entries arbitrary: st) (simp_all add: straceStep_OK)

lemma initStrace_OK: "straceOK initStrace"
  by (simp add: straceOK_def initStrace_def)

subsection \<open>Sorting with a comparison function\<close>

lemma set_insertBy [simp]: "set (insertBy cmp x ys) = insert x (set ys)"
  by (induction ys) auto

lemma length_insertBy [simp]: "length (insertBy cmp x ys) = Suc (length ys)"
  by (induction ys) auto

lemma sortBy_Nil [simp]: "sortBy cmp [] = []"
  by (simp add: sortBy_def)

lemma sortBy_Cons [simp]: "sortBy cmp (x # xs) = insertBy cmp x (sortBy cmp xs)"
  by (simp add: sortBy_def)

lemma set_sortBy [simp]: "set (sortBy cmp xs) = set xs"
  by (induction xs) simp_all

lemma length_sortBy [simp]: "length (sortBy cmp xs) = length xs"
  by (induction xs) simp_all



lemma jle_trans: "jle x y \<Longrightarrow> jle y z \<Longrightarrow> jle x z"
  by (cases x; cases y; cases z) simp_all

text \<open>
  The comparison function \<^verbatim>\<open>(a, b) => a - b\<close> agrees with the order of the
  numbers, infinities included (\<open>\<infinity> - \<infinity>\<close> is \<open>NaN\<close>, which the sort reads as
  "not greater"), as long as no key is \<open>NaN\<close>.
\<close>

lemma jpos_jsub: "isNum x \<Longrightarrow> isNum y \<Longrightarrow> jpos (jsub x y) \<Longrightarrow> jle y x"
  by (cases x; cases y) (simp_all add: isNum_def jpos_fin)

lemma not_jpos_jsub: "isNum x \<Longrightarrow> isNum y \<Longrightarrow> \<not> jpos (jsub x y) \<Longrightarrow> jle x y"
  by (cases x; cases y) (simp_all add: isNum_def jpos_fin)

lemma sorted_insertBy:
  assumes "isNum (key x)" "\<forall>y \<in> set ys. isNum (key y)" "sorted_wrt jle (map key ys)"
  shows "sorted_wrt jle (map key (insertBy (\<lambda>a b. jsub (key a) (key b)) x ys))"
  using assms(2,3)
proof (induction ys)
  case Nil
  show ?case by simp
next
  case (Cons y ys)
  show ?case
  proof (cases "jpos (jsub (key x) (key y))")
    case True
    then have "jle (key y) (key x)" using assms(1) Cons.prems(1) by (simp add: jpos_jsub)
    with True Cons show ?thesis by auto
  next
    case False
    then have xy: "jle (key x) (key y)" using assms(1) Cons.prems(1) by (simp add: not_jpos_jsub)
    have "jle (key x) (key z)" if "z \<in> set ys" for z
      using Cons.prems(2) that xy jle_trans by auto
    with False xy Cons.prems show ?thesis by auto
  qed
qed

lemma sorted_sortBy:
  assumes "\<forall>x \<in> set xs. isNum (key x)"
  shows "sorted_wrt jle (map key (sortBy (\<lambda>a b. jsub (key a) (key b)) xs))"
  using assms
proof (induction xs)
  case Nil
  show ?case by simp
next
  case (Cons x xs)
  then have "sorted_wrt jle (map key (sortBy (\<lambda>a b. jsub (key a) (key b)) xs))" by simp
  from sorted_insertBy[of key x, OF _ _ this] Cons.prems
  show ?case by simp
qed

lemma sorted_wrt_filter_map:
  "sorted_wrt P (map f xs) \<Longrightarrow> sorted_wrt P (map f (filter Q xs))"
  by (induction xs) auto

subsection \<open>Order, durations and idle gaps of the parsed events\<close>

lemma parseStrace_lines:
  "lines (parseStrace content fname) =
     sortBy (\<lambda>x y. jsub (timestampEpoch x) (timestampEpoch y))
       (linesAcc (fold straceStep (indexed (split newline content)) initStrace))"
  by (simp add: parseStrace_def Let_def)

lemma parsePerfTrace_lines:
  "lines (parsePerfTrace content fname) =
     linesAcc (fold perfStep (indexed (split newline content)) initPerf)"
  by (simp add: parsePerfTrace_def Let_def)

lemma parseStrace_lineOK: "list_all lineOK (lines (parseStrace content fname))"
proof -
  have "straceOK (fold straceStep (indexed (split newline content)) initStrace)"
    by (rule fold_straceStep_OK[OF initStrace_OK])
  then show ?thesis by (simp add: parseStrace_lines straceOK_def list_all_iff)
qed

lemma parsePerfTrace_lineOK: "list_all lineOK (lines (parsePerfTrace content fname))"
proof -
  have "perfOK (fold perfStep (indexed (split newline content)) initPerf)"
    by (rule fold_perfStep_OK[OF initPerf_OK])
  then show ?thesis by (simp add: parsePerfTrace_lines perfOK_def)
qed

lemma parseStrace_sorted:
  assumes "list_all (\<lambda>l. timestampEpoch l \<noteq> NaN) (lines (parseStrace content fname))"
  shows "sorted_wrt jle (map timestampEpoch (lines (parseStrace content fname)))"
proof -
  have "\<forall>l \<in> set (linesAcc (fold straceStep (indexed (split newline content)) initStrace)).
      isNum (timestampEpoch l)"
    using assms by (simp add: parseStrace_lines list_all_iff isNum_def)
  from sorted_sortBy[of _ timestampEpoch, OF this] show ?thesis by (simp add: parseStrace_lines)
qed

lemma parsePerfTrace_ids: "sorted_wrt (<) (map line_id (lines (parsePerfTrace content fname)))"
proof -
  have "sorted_wrt (<) (map line_id (linesAcc
      (fold perfStep (zip (split newline content) [0..<0 + length (split newline content)]) initPerf)))"
    by (rule fold_perfStep_ids) (simp_all add: initPerf_def)
  then show ?thesis by (simp add: parsePerfTrace_lines indexed_def)
qed

text \<open>
  Claim C8, as the code has it. The variant-A parser sorts its events by
  relative start time with the comparison function \<^verbatim>\<open>(a, b) => a - b\<close>: when
  no relative start time is \<open>NaN\<close>, the events are in non-decreasing order as a
  whole and for every process id. The variant-B parser does not sort: its
  events are in the order of their input lines. In both, a duration is \<open>NaN\<close> or
  not negative (the text of the duration matches \<^verbatim>\<open>[\d\.]+\<close>, which
  \<^verbatim>\<open>parseFloat\<close> may reject), an idle gap is \<open>NaN\<close> or not negative, and the idle
  gap is not negative whenever the relative start time of the event is
  finite. Not negative includes the positive infinity, which a number with more
  than 308 digits gives.
\<close>

theorem parsed_events_order_and_bounds:
  "(list_all (\<lambda>l. timestampEpoch l \<noteq> NaN) (lines (parseStrace content fname)) \<longrightarrow>
      sorted_wrt jle (map timestampEpoch (lines (parseStrace content fname))) \<and>
      (\<forall>p. sorted_wrt jle
         (map timestampEpoch (filter (\<lambda>l. pid l = p) (lines (parseStrace content fname)))))) \<and>
   list_all (\<lambda>l. (duration l = NaN \<or> nonNeg (duration l)) \<and>
                 (userDiff l = NaN \<or> nonNeg (userDiff l)) \<and>
                 (isFinite (timestampEpoch l) \<longrightarrow> nonNeg (userDiff l)))
     (lines (parseStrace content fname)) \<and>
   sorted_wrt (<) (map line_id (lines (parsePerfTrace content fname))) \<and>
   list_all (\<lambda>l. (duration l = NaN \<or> nonNeg (duration l)) \<and>
                 (userDiff l = NaN \<or> nonNeg (userDiff l)) \<and>
                 (isFinite (timestampEpoch l) \<longrightarrow> nonNeg (userDiff l)))
     (lines (parsePerfTrace content fname))"
proof (intro conjI impI allI)
  assume a: "list_all (\<lambda>l. timestampEpoch l \<noteq> NaN) (lines (parseStrace content fname))"
  show "sorted_wrt jle (map timestampEpoch (lines (parseStrace content fname)))"
    by (rule parseStrace_sorted[OF a])
  show "sorted_wrt jle (map timestampEpoch (filter (\<lambda>l. pid l = p) (lines (parseStrace content fname))))" for p
    by (rule sorted_wrt_filter_map[OF parseStrace_sorted[OF a]])
next
  show "list_all (\<lambda>l. (duration l = NaN \<or> nonNeg (duration l)) \<and>
                 (userDiff l = NaN \<or> nonNeg (userDiff l)) \<and>
                 (isFinite (timestampEpoch l) \<longrightarrow> nonNeg (userDiff l)))
     (lines (parseStrace content fname))"
    using parseStrace_lineOK[of content fname] by (simp add: list_all_iff lineOK_def)
  show "sorted_wrt (<) (map line_id (lines (parsePerfTrace content fname)))"
    by (rule parsePerfTrace_ids)
  show "list_all (\<lambda>l. (duration l = NaN \<or> nonNeg (duration l)) \<and>
                 (userDiff l = NaN \<or> nonNeg (userDiff l)) \<and>
                 (isFinite (timestampEpoch l) \<longrightarrow> nonNeg (userDiff l)))
     (lines (parsePerfTrace content fname))"
    using parsePerfTrace_lineOK[of content fname] by (simp add: list_all_iff lineOK_def)
qed

text \<open>Concrete logs, for the instances below.\<close>

definition ex_strace_two :: string where
  "ex_strace_two =
     ''[pid 12] 10:00:00.000000 read(3) = 0 <0.000100>'' @ [newline] @
     ''[pid 7] 09:59:59.500000 write(1, x) = 1 <0.250000>''"

definition ex_strace_nan :: string where
  "ex_strace_nan = ''10:00:00.000000 read(3) = 0 <.>''"

definition ex_perf_two :: string where
  "ex_perf_two =
     ''1.5 ( 1.000 ms): app/42 brk() = 0'' @ [newline] @
     ''2.5 ( 1.000 ms): app/42 brk() = 0''"

definition ex_perf_unordered :: string where
  "ex_perf_unordered =
     ''1000.000000 ( 1.000 ms): app/42 openat(...) = 3'' @ [newline] @
     ''999.500000 ( 2.000 ms): app/42 openat(...) = 3''"

text \<open>
  A variant-A line whose hour has 310 digits, and one whose duration has: both
  numbers are beyond the range of a double.
\<close>

definition ex_strace_hour :: string where
  "ex_strace_hour = replicate 310 (CHR ''9'') @ '':00:00.000000 read(3) = 0 <0.000100>''"

definition ex_strace_long :: string where
  "ex_strace_long = ''10:00:00.000000 read(3) = 0 <'' @ replicate 310 (CHR ''9'') @ ''>''"

lemma ex_strace_two_fields:
  "map timestampEpoch (lines (parseStrace ex_strace_two ''a.log'')) = [Num (- 500), Num 0] \<and>
   map userDiff (lines (parseStrace ex_strace_two ''a.log'')) = [Num 0, Num 0] \<and>
   map duration (lines (parseStrace ex_strace_two ''a.log'')) = [Num (1 / 4), Num (1 / 10000)]"
  by code_simp

theorem parsed_events_order_and_bounds_witness:
  "map timestampEpoch (lines (parseStrace ex_strace_two ''a.log'')) = [Num (- 500), Num 0] \<and>
   list_all (\<lambda>x. x \<noteq> NaN) [Num (- 500), Num 0] \<and>
   sorted_wrt jle [Num (- 500), Num 0] \<and>
   list_all isFinite [Num (- 500), Num 0] \<and>
   map userDiff (lines (parseStrace ex_strace_two ''a.log'')) = [Num 0, Num 0] \<and>
   list_all nonNeg [Num 0, Num 0]"
  using parsed_events_order_and_bounds[of ex_strace_two "''a.log''"]
  by (simp add: ex_strace_two_fields)

text \<open>
  Claim C8, as stated, fails. Two lines of a variant-B log for the same
  process id, the second with the earlier timestamp, give two events in
  decreasing order of start time. A variant-A line with the duration text
  \<^verbatim>\<open><.>\<close> gives an event whose duration is \<open>NaN\<close>, which is not \<open>\<ge> 0\<close>. A
  variant-A line whose hour is beyond the range of a double starts at
  infinity, so that its relative start time and its idle gap, both
  \<open>\<infinity> - \<infinity>\<close>, are \<open>NaN\<close>.
\<close>

theorem parsed_events_counterexample:
  "map pid (lines (parsePerfTrace ex_perf_unordered ''b.log'')) = [Num 42, Num 42] \<and>
   map timestampEpoch (lines (parsePerfTrace ex_perf_unordered ''b.log'')) = [Num 0, Num (- (1 / 2))] \<and>
   \<not> jle (Num 0) (Num (- (1 / 2))) \<and>
   map duration (lines (parseStrace ex_strace_nan ''a.log'')) = [NaN] \<and>
   map (\<lambda>l. (timestampEpoch l, userDiff l)) (lines (parseStrace ex_strace_hour ''a.log''))
     = [(NaN, NaN)] \<and>
   \<not> jle (Num 0) NaN"
  by code_simp

text \<open>
  Claim C1 at a concrete log. The two accepted lines carry the timestamps 1.5
  and 2.5. The claim puts the second event at \<open>2500 - 1500 = 1000\<close>; the code
  multiplies by \<open>1.0\<close> and puts it at \<open>2.5 - 1.5 = 1\<close>.
\<close>

theorem perf_timestamp_unscaled:
  "parsePerfTimestamp ''2.5'' = Num (5 / 2) \<and>
   map timestamp (lines (parsePerfTrace ex_perf_two ''b.log'')) = [''1.5'', ''2.5''] \<and>
   map timestampEpoch (lines (parsePerfTrace ex_perf_two ''b.log'')) = [Num 0, Num 1]"
  by code_simp

subsection \<open>Aligning a trace with itself\<close>

text \<open>
  Claim C2, as the code has it. Aligning a trace with itself gives one match
  row for every event, which pairs the event with itself. The duration delta
  of the row is \<open>duration - duration\<close>: 0 when the duration of the event is
  finite, \<open>NaN\<close> when it is \<open>NaN\<close> or infinite; likewise for the idle-gap delta.
\<close>

theorem self_alignment:
  "\<exists>rows. alignTraces t t = Inr rows \<and> length rows = length (lines t) \<and>
     (\<forall>k < length rows.
        rtype (rows ! k) = Match \<and>
        row_a (rows ! k) = Some (lines t ! k) \<and> row_b (rows ! k) = Some (lines t ! k) \<and>
        timeDiff (rows ! k) = Some (if isFinite (duration (lines t ! k)) then Num 0 else NaN) \<and>
        userDiffDelta (rows ! k) = Some (if isFinite (userDiff (lines t ! k)) then Num 0 else NaN))"
proof -
  have d: "jsub x x = (if isFinite x then Num 0 else NaN)" for x
    using OVERFLOW_pos by (cases x) (simp_all add: fin_def)
  show ?thesis
    by (intro exI[of _ "map (\<lambda>x. matchRow x x) (lines t)"])
       (simp add: alignTraces_self matchRow_def d)
qed

lemma ex_self_align:
  "alignTraces ex_traceA ex_traceA =
     Inr [matchRow (ex_call 0 ''openat'' ''x'') (ex_call 0 ''openat'' ''x''),
          matchRow (ex_call 1 ''read'' ''3'') (ex_call 1 ''read'' ''3''),
          matchRow (ex_call 2 ''close'' ''3'') (ex_call 2 ''close'' ''3'')]"
  by code_simp

theorem self_alignment_witness:
  "alignTraces ex_traceA ex_traceA =
     Inr [matchRow (ex_call 0 ''openat'' ''x'') (ex_call 0 ''openat'' ''x''),
          matchRow (ex_call 1 ''read'' ''3'') (ex_call 1 ''read'' ''3''),
          matchRow (ex_call 2 ''close'' ''3'') (ex_call 2 ''close'' ''3'')] \<and>
   length (lines ex_traceA) = 3 \<and>
   timeDiff (matchRow (ex_call 1 ''read'' ''3'') (ex_call 1 ''read'' ''3'')) = Some (Num 0) \<and>
   userDiffDelta (matchRow (ex_call 1 ''read'' ''3'') (ex_call 1 ''read'' ''3'')) = Some (Num 0)"
proof -
  from self_alignment[of ex_traceA] obtain rows
    where r: "alignTraces ex_traceA ex_traceA = Inr rows"
      and k: "\<forall>k < length rows.
        timeDiff (rows ! k) = Some (if isFinite (duration (lines ex_traceA ! k)) then Num 0 else NaN) \<and>
        userDiffDelta (rows ! k) = Some (if isFinite (userDiff (lines ex_traceA ! k)) then Num 0 else NaN)"
    by blast
  have rows: "rows = [matchRow (ex_call 0 ''openat'' ''x'') (ex_call 0 ''openat'' ''x''),
          matchRow (ex_call 1 ''read'' ''3'') (ex_call 1 ''read'' ''3''),
          matchRow (ex_call 2 ''close'' ''3'') (ex_call 2 ''close'' ''3'')]"
    using r by (simp add: ex_self_align)
  have l1: "lines ex_traceA ! 1 = ex_call 1 ''read'' ''3''" by (simp add: ex_traceA_def)
  have d1: "isFinite (duration (ex_call 1 ''read'' ''3''))" "isFinite (userDiff (ex_call 1 ''read'' ''3''))"
    by (simp_all add: ex_call_def)
  have "(1::nat) < length rows" by (simp add: rows)
  with k have "timeDiff (rows ! 1) = Some (if isFinite (duration (lines ex_traceA ! 1)) then Num 0 else NaN)"
    "userDiffDelta (rows ! 1) = Some (if isFinite (userDiff (lines ex_traceA ! 1)) then Num 0 else NaN)"
    by blast+
  then have "timeDiff (matchRow (ex_call 1 ''read'' ''3'') (ex_call 1 ''read'' ''3'')) = Some (Num 0)"
    "userDiffDelta (matchRow (ex_call 1 ''read'' ''3'') (ex_call 1 ''read'' ''3'')) = Some (Num 0)"
    unfolding l1 using d1 by (simp_all add: rows)
  with ex_self_align ex_lengths(1) show ?thesis by (simp only: simp_thms)
qed

text \<open>
  Claim C2, as stated, fails on traces that the variant-A parser returns. The
  event of the line with the duration text \<^verbatim>\<open><.>\<close> has the duration \<open>NaN\<close>, and
  the event of the line whose duration has 310 digits has the duration
  infinity: the row that matches either with itself has the duration delta
  \<open>NaN\<close>, not 0.
\<close>

theorem self_alignment_counterexample:
  "(let t = parseStrace ex_strace_nan ''a.log''
    in (map duration (lines t), map_sum id (map timeDiff) (alignTraces t t)))
     = ([NaN], Inr [Some NaN]) \<and>
   (let t = parseStrace ex_strace_long ''a.log''
    in (map duration (lines t), map_sum id (map timeDiff) (alignTraces t t)))
     = ([PosInf], Inr [Some NaN]) \<and>
   Some NaN \<noteq> Some (Num 0)"
  by code_simp

subsection \<open>What one line of a line-envelope log does to the state\<close>

text \<open>The state in which step 3 of the callback starts.\<close>

definition prepare :: "jsnum \<Rightarrow> jsnum \<Rightarrow> StraceState \<Rightarrow> StraceState" where
  "prepare p cur st =
     (let st1 = st\<lparr>uniquePids := setAdd p (uniquePids st)\<rparr>;
          st2 = (if \<not> hasSetStartTime st1
                 then st1\<lparr>globalStartTime := cur, hasSetStartTime := True\<rparr> else st1)
      in if pidLastEndTime st2 p = None
         then st2\<lparr>pidLastEndTime := (pidLastEndTime st2)(p \<mapsto> cur)\<rparr> else st2)"




lemma prepare_fields [simp]:
  "linesAcc (prepare p cur st) = linesAcc st"
  "uniquePids (prepare p cur st) = setAdd p (uniquePids st)"
  "pendingCalls (prepare p cur st) = pendingCalls st"
  "hasSetStartTime (prepare p cur st)"
  "globalStartTime (prepare p cur st) = (if hasSetStartTime st then globalStartTime st else cur)"
  "pidLastEndTime (prepare p cur st) p \<noteq> None"
  "q \<noteq> p \<Longrightarrow> pidLastEndTime (prepare p cur st) q = pidLastEndTime st q"
  "pidLastEndTime st p \<noteq> None \<Longrightarrow> pidLastEndTime (prepare p cur st) p = pidLastEndTime st p"
  by (simp_all add: prepare_def Let_def)





lemma resumeCall_count:
  "length (linesAcc (resumeCall rawLine index p cur rm st)) \<le> Suc (length (linesAcc st))"
  using resumeCall_cases[of rawLine index p cur rm st] by auto


subsection \<open>The process ids of a line-envelope log\<close>
















subsection \<open>Lines that are not recognized\<close>






















subsection \<open>Unfinished and resumed calls\<close>



























end
